theory Spec2Isabelle
  imports Complex_Main "HOL-Library.Word"
begin

unbundle bit_operations_syntax

section \<open>Data model of package opr\<close>

type_synonym byte = "8 word"
type_synonym bytes = "byte list"
type_synonym uint64 = "64 word"

text \<open>
  A Go panic ends the run; the model returns it as a value. \<open>IndexOutOfRange\<close> is an
  index beyond an array or slice, \<open>SliceBoundsOutOfRange\<close> a slice expression beyond
  its operand, \<open>NilDereference\<close> a field read through a nil pointer and
  \<open>MarshalFailed\<close> the \<open>panic(err)\<close> of \<open>GetOPRecord\<close>.
\<close>

datatype panic = IndexOutOfRange | SliceBoundsOutOfRange | NilDereference | MarshalFailed

text \<open>
  \<open>factom.Entry\<close>: the chain id, the extension slots and the content. Slot 0 of
  \<open>ExtIDs\<close> holds the best nonce.
\<close>

record Entry =
  ChainID :: string
  ExtIDs :: "bytes list"
  Content :: bytes

text \<open>
  \<open>config.Config\<close> is read through \<open>c.String(key)\<close>, which returns the value or an
  error: a partial map from keys to values.
\<close>

type_synonym config = "string \<Rightarrow> string option"

text \<open>
  \<open>OraclePriceRecordAssetList\<close> is a Go map from asset symbol to price. It is kept as
  the list of its entries, in the order a \<open>range\<close> loop visits them. Prices are
  \<open>float64\<close> in the source; the only operation applied to them here is the test
  \<open>v == 0\<close>, so they are taken as reals.
\<close>

type_synonym asset_list = "(string \<times> real) list"

text \<open>
  The struct \<open>OraclePriceRecord\<close>, field by field. Pointers are options
  (\<open>None\<close> is nil). The field \<open>StopMining\<close> is a reference to a channel; the
  channel's buffer lives outside the record, in the state of a mining run.
\<close>

record OraclePriceRecord =
  Config :: "config option"
  Difficulty :: uint64
  Grade :: real
  OPRHash :: bytes
  EC :: "string option"
  Entry :: "Entry option"
  OPRChainID :: string
  Dbht :: "32 word"
  WinPreviousOPR :: "string list"
  CoinbasePNTAddress :: string
  FactomDigitalID :: "string list"
  Assets :: asset_list

section \<open>ComputeDifficulty\<close>

text \<open>
  The loop \<open>for i := uint64(0); i < 8; i++ { difficulty = difficulty<<8 + uint64(h[i]) }\<close>.
  Reading \<open>h[i]\<close> beyond the length of the hash panics.
\<close>

function difficulty_loop :: "bytes \<Rightarrow> nat \<Rightarrow> uint64 \<Rightarrow> panic + uint64" where
  "difficulty_loop h i difficulty =
     (if i < 8 then
        (if i < length h
         then difficulty_loop h (Suc i) (push_bit 8 difficulty + ucast (h ! i))
         else Inl IndexOutOfRange)
      else Inr difficulty)"
  by pat_completeness auto
termination
  by (relation "measure (\<lambda>(h, i, d). 8 - i)") auto

declare difficulty_loop.simps [simp del]

text \<open>
  \<open>LX.Hash\<close> is the LXRHash library's hash function, a parameter \<open>H\<close> of the model.
  \<open>ComputeDifficulty\<close> hashes the record hash followed by the nonce.
\<close>

definition ComputeDifficulty :: "(bytes \<Rightarrow> bytes) \<Rightarrow> OraclePriceRecord \<Rightarrow> bytes \<Rightarrow> panic + uint64" where
  "ComputeDifficulty H opr nonce =
     (let no = OPRHash opr @ nonce;
          h = H no
      in difficulty_loop h 0 0)"

section \<open>The nonce of an iteration\<close>

text \<open>
  \<open>nonce = nonce[:0]; for j := i; j > 0; j = j >> 8 { nonce = append(nonce, byte(j)) }\<close>
\<close>

function nonce_loop :: "uint64 \<Rightarrow> bytes \<Rightarrow> bytes" where
  "nonce_loop j nonce =
     (if 0 < j then nonce_loop (drop_bit 8 j) (nonce @ [ucast j]) else nonce)"
  by pat_completeness auto
termination
proof (relation "measure (\<lambda>(j, nonce). unat j)")
  show "wf (measure (\<lambda>(j :: uint64, nonce :: bytes). unat j))"
    by simp
next
  fix j :: uint64 and nonce :: bytes
  assume "0 < j"
  then have "0 < unat j"
    by (simp add: word_less_nat_alt)
  then have "unat j div 2 ^ 8 < unat j"
    by simp
  then show "((drop_bit 8 j, nonce @ [ucast j]), (j, nonce)) \<in> measure (\<lambda>(j, nonce). unat j)"
    by (simp add: drop_bit_eq_div unat_div)
qed

declare nonce_loop.simps [simp del]

definition mine_nonce :: "uint64 \<Rightarrow> bytes" where
  "mine_nonce i = nonce_loop i []"

section \<open>Mine\<close>

text \<open>
  The body of the mining loop after the cancellation check: build the nonce of the
  counter, compute its difficulty, and when it is strictly greater than the stored one,
  store it and copy the nonce into \<open>opr.Entry.ExtIDs[0]\<close>. The write to
  \<open>ExtIDs[0]\<close> goes through the pointer \<open>opr.Entry\<close> and indexes slot 0; it
  comes after the write to \<open>Difficulty\<close>, so a panic there leaves the new difficulty
  in the record. A panic is returned with the record as it stands.
\<close>

definition try_nonce ::
  "(bytes \<Rightarrow> bytes) \<Rightarrow> OraclePriceRecord \<Rightarrow> uint64 \<Rightarrow> (panic \<times> OraclePriceRecord) + OraclePriceRecord" where
  "try_nonce H opr i =
     (let nonce = mine_nonce i in
      case ComputeDifficulty H opr nonce of
        Inl e \<Rightarrow> Inl (e, opr)
      | Inr diff \<Rightarrow>
          if Difficulty opr < diff then
            (let opr1 = opr\<lparr>Difficulty := diff\<rparr> in
             case Entry opr1 of
               None \<Rightarrow> Inl (NilDereference, opr1)
             | Some e \<Rightarrow>
                 (case ExtIDs e of
                    [] \<Rightarrow> Inl (IndexOutOfRange, opr1)
                  | x # xs \<Rightarrow> Inr (opr1\<lparr>Entry := Some (e\<lparr>ExtIDs := nonce # xs\<rparr>)\<rparr>)))
          else Inr opr)"

text \<open>
  One run of \<open>Mine\<close> as a machine. The run is at the \<open>select\<close> at the top of an
  iteration, or past it and about to execute the body, or it has left the loop (and has
  published the iteration count and the best difficulty through
  \<open>common.Stats.Update\<close>), or it has panicked. The state holds the loop counter
  \<open>i\<close>, the record, the buffer of the channel \<open>StopMining\<close> and what was published.
\<close>

datatype pc = AtSelect | AtBody | Returned | Panicked panic

record mining =
  m_pc :: pc
  m_i :: uint64
  m_opr :: OraclePriceRecord
  m_chan :: "int list"
  m_stats :: "(uint64 \<times> uint64) option"

text \<open>\<open>NewOpr\<close> makes the channel with \<open>make(chan int, 1)\<close>.\<close>

definition StopMining_cap :: nat where
  "StopMining_cap = 1"

definition Mine_start :: "OraclePriceRecord \<Rightarrow> int list \<Rightarrow> mining" where
  "Mine_start opr chan =
     \<lparr>m_pc = AtSelect, m_i = 0, m_opr = opr, m_chan = chan, m_stats = None\<rparr>"

text \<open>
  The actions of a run: \<open>Send v\<close> is another goroutine sending \<open>v\<close> on
  \<open>StopMining\<close> (possible while the buffer has room); \<open>Select\<close> is the non-blocking
  \<open>select\<close>, which receives a buffered value and leaves the loop, or falls through its
  \<open>default\<close> when the buffer is empty; \<open>Body\<close> is the rest of the iteration and
  the increment of \<open>i\<close>. An action that is not enabled gives \<open>None\<close>. Nothing
  in the source closes the channel, and closing it is not an action.
\<close>

datatype action = Send int | Select | Body

fun step :: "(bytes \<Rightarrow> bytes) \<Rightarrow> action \<Rightarrow> mining \<Rightarrow> mining option" where
  "step H (Send v) s =
     (if length (m_chan s) < StopMining_cap then Some (s\<lparr>m_chan := m_chan s @ [v]\<rparr>) else None)"
| "step H Select s =
     (if m_pc s = AtSelect then
        (case m_chan s of
           [] \<Rightarrow> Some (s\<lparr>m_pc := AtBody\<rparr>)
         | v # vs \<Rightarrow>
             Some (s\<lparr>m_pc := Returned, m_chan := vs,
                      m_stats := Some (m_i s, Difficulty (m_opr s))\<rparr>))
      else None)"
| "step H Body s =
     (if m_pc s = AtBody then
        (case try_nonce H (m_opr s) (m_i s) of
           Inl (e, opr') \<Rightarrow> Some (s\<lparr>m_pc := Panicked e, m_opr := opr'\<rparr>)
         | Inr opr' \<Rightarrow> Some (s\<lparr>m_pc := AtSelect, m_i := m_i s + 1, m_opr := opr'\<rparr>))
      else None)"

fun run :: "(bytes \<Rightarrow> bytes) \<Rightarrow> action list \<Rightarrow> mining \<Rightarrow> mining option" where
  "run H [] s = Some s"
| "run H (a # as) s = (case step H a s of None \<Rightarrow> None | Some s' \<Rightarrow> run H as s')"

section \<open>GetOPRecord\<close>

text \<open>\<open>hex.EncodeToString\<close>: two lower-case hexadecimal digits for each byte.\<close>

definition hex_digit :: "nat \<Rightarrow> char" where
  "hex_digit n = ''0123456789abcdef'' ! n"

definition EncodeToString :: "bytes \<Rightarrow> string" where
  "EncodeToString bs = concat (map (\<lambda>b. [hex_digit (unat b div 16), hex_digit (unat b mod 16)]) bs)"

text \<open>\<open>opr.Assets[asset] = v\<close>: replace the value of a key, or add the key.\<close>

fun assets_put :: "string \<Rightarrow> real \<Rightarrow> asset_list \<Rightarrow> asset_list" where
  "assets_put k v [] = [(k, v)]"
| "assets_put k v ((k', v') # m) = (if k' = k then (k, v) # m else (k', v') # assets_put k v m)"

fun SetPegValues :: "OraclePriceRecord \<Rightarrow> asset_list \<Rightarrow> OraclePriceRecord" where
  "SetPegValues opr [] = opr"
| "SetPegValues opr ((asset, v) # assets) =
     SetPegValues (opr\<lparr>Assets := assets_put asset v (Assets opr)\<rparr>) assets"

text \<open>
  The fields of the record that \<open>json.Marshal\<close> writes: those not tagged
  \<open>json:"-"\<close>.
\<close>

type_synonym json_body = "string \<times> 32 word \<times> string list \<times> string \<times> string list \<times> asset_list"

definition json_fields :: "OraclePriceRecord \<Rightarrow> json_body" where
  "json_fields opr =
     (OPRChainID opr, Dbht opr, WinPreviousOPR opr, CoinbasePNTAddress opr,
      FactomDigitalID opr, Assets opr)"

text \<open>
  \<open>GetOPRecord\<close>, with the libraries it calls as parameters: \<open>Peg\<close> is what
  \<open>polling.PullPEGAssets\<close> returned (asset and value), \<open>decode58\<close> is
  \<open>base58.Decode\<close>, \<open>marshal\<close> is \<open>json.Marshal\<close> (\<open>None\<close> is its error) and
  \<open>H\<close> is \<open>LX.Hash\<close>.
\<close>

definition GetOPRecord ::
  "(bytes \<Rightarrow> bytes) \<Rightarrow> (json_body \<Rightarrow> bytes option) \<Rightarrow> (string \<Rightarrow> bytes) \<Rightarrow> asset_list \<Rightarrow>
   OraclePriceRecord \<Rightarrow> config option \<Rightarrow> panic + OraclePriceRecord" where
  "GetOPRecord H marshal decode58 Peg opr c =
     (let opr1 = SetPegValues (opr\<lparr>Config := c\<rparr>) Peg;
          entry = \<lparr>ChainID = EncodeToString (decode58 (OPRChainID opr1)), ExtIDs = [[]], Content = []\<rparr>;
          opr2 = opr1\<lparr>Entry := Some entry\<rparr>
      in case marshal (json_fields opr2) of
           None \<Rightarrow> Inl MarshalFailed
         | Some content \<Rightarrow>
             Inr (opr2\<lparr>Entry := Some (entry\<lparr>Content := content\<rparr>), OPRHash := H content\<rparr>))"

section \<open>Validate\<close>

text \<open>
  What \<open>Validate\<close> takes from outside this file: \<open>ChainIDFromStrings\<close> is
  \<open>base58.Encode\<close> applied to \<open>common.ComputeChainIDFromStrings\<close>, \<open>OPRChainTag\<close>
  and \<open>AllAssets\<close> are the constants of package \<open>common\<close>, and
  \<open>ConvertPegAddrToRaw\<close> returns a prefix, the raw address and an error
  (\<open>None\<close> is the nil error).
\<close>

record externals =
  ChainIDFromStrings :: "string list \<Rightarrow> string"
  OPRChainTag :: string
  ConvertPegAddrToRaw :: "string \<Rightarrow> string \<times> bytes \<times> string option"
  AllAssets :: "string list"

text \<open>
  The loop \<open>for k, v := range opr.Assets\<close>: \<open>False\<close> at the first entry whose value
  is zero and whose key is not \<open>PNT\<close>.
\<close>

fun no_zero_assets :: "asset_list \<Rightarrow> bool" where
  "no_zero_assets [] = True"
| "no_zero_assets ((k, v) # m) = (if v = 0 \<and> k \<noteq> ''PNT'' then False else no_zero_assets m)"

text \<open>
  Modelled from the spec: the method \<open>Contains\<close> of \<open>OraclePriceRecordAssetList\<close>,
  whose source is not among the files. The spec says that the assets contain every key in
  the required set.
\<close>

definition Contains :: "asset_list \<Rightarrow> string list \<Rightarrow> bool" where
  "Contains m names = list_all (\<lambda>n. n \<in> set (map fst m)) names"

text \<open>
  \<open>Validate\<close> reads and may write the package variable \<open>OPRChainID\<close>: it takes its
  value \<open>g\<close> and returns the new value beside the verdict.
\<close>

definition Validate :: "externals \<Rightarrow> string \<Rightarrow> OraclePriceRecord \<Rightarrow> config \<Rightarrow> bool \<times> string" where
  "Validate X g opr c =
     (case (c ''Miner.Protocol'', c ''Miner.Network'') of
        (Some protocol, Some network) \<Rightarrow>
          (let g' = (if length g = 0
                     then ChainIDFromStrings X [protocol, network, OPRChainTag X]
                     else g)
           in if OPRChainID opr \<noteq> g' then (False, g')
              else
                (case ConvertPegAddrToRaw X (CoinbasePNTAddress opr) of
                   (pre, raw, err) \<Rightarrow>
                     if err \<noteq> None \<or> pre \<noteq> ''tPNT'' then (False, g')
                     else if \<not> no_zero_assets (Assets opr) then (False, g')
                     else if \<not> Contains (Assets opr) (AllAssets X) then (False, g')
                     else (True, g')))
      | _ \<Rightarrow> (False, g))"

section \<open>The winners of the previous block in NewOpr\<close>

text \<open>\<open>NewOraclePriceRecord\<close>: every field has its zero value; the array of winners is ten empty strings.\<close>

definition NewOraclePriceRecord :: OraclePriceRecord where
  "NewOraclePriceRecord =
     \<lparr>Config = None, Difficulty = 0, Grade = 0, OPRHash = [], EC = None, Entry = None,
      OPRChainID = [], Dbht = 0, WinPreviousOPR = replicate 10 [], CoinbasePNTAddress = [],
      FactomDigitalID = [], Assets = []\<rparr>"

text \<open>
  \<open>for i, w := range winners.ToBePaid { opr.WinPreviousOPR[i] = hex.EncodeToString(w.Entry.Hash()[:8]) }\<close>
  The right-hand side is evaluated first: \<open>w.Entry\<close> may be nil, and the slice
  \<open>[:8]\<close> needs eight bytes. Then the store indexes an array of ten. \<open>EntryHash\<close> is
  the method \<open>Hash\<close> of \<open>factom.Entry\<close>.
\<close>

fun winners_loop ::
  "(Entry \<Rightarrow> bytes) \<Rightarrow> nat \<Rightarrow> OraclePriceRecord list \<Rightarrow> OraclePriceRecord \<Rightarrow> panic + OraclePriceRecord" where
  "winners_loop EntryHash i [] opr = Inr opr"
| "winners_loop EntryHash i (w # ws) opr =
     (case Entry w of
        None \<Rightarrow> Inl NilDereference
      | Some e \<Rightarrow>
          if length (EntryHash e) < 8 then Inl SliceBoundsOutOfRange
          else if i < 10 then
            winners_loop EntryHash (Suc i) ws
              (opr\<lparr>WinPreviousOPR := (WinPreviousOPR opr)[i := EncodeToString (take 8 (EntryHash e))]\<rparr>)
          else Inl IndexOutOfRange)"

definition NewOpr_winners :: "(Entry \<Rightarrow> bytes) \<Rightarrow> OraclePriceRecord \<Rightarrow> OraclePriceRecord list \<Rightarrow> panic + OraclePriceRecord" where
  "NewOpr_winners EntryHash opr ToBePaid = winners_loop EntryHash 0 ToBePaid opr"

section \<open>The read loop of a connection\<close>

text \<open>
  A non-nil Go \<open>error\<close>; the interface value is an option, \<open>None\<close> for nil.
  \<open>EOF\<close> is \<open>io.EOF\<close>, which the decoder returns when the peer has closed the
  connection between two messages.
\<close>

datatype go_error = EOF | DecodeError string

record 'd NetworkMessage =
  NetworkCommand :: int
  Data :: 'd

text \<open>What the loop does that can be seen from outside: the three callbacks of the server and the close of the socket.\<close>

datatype 'd event =
    OnNewClient
  | OnNewMessage "'d NetworkMessage"
  | ConnClose
  | OnClientConnectionClosed "go_error option"

text \<open>
  The loop ends by returning; when every outcome so far was a message and nothing more has
  arrived, it is blocked in \<open>Decode\<close>.
\<close>

datatype loop_end = LoopReturned | BlockedInDecode

text \<open>
  The connection is the list of the outcomes of the successive calls of
  \<open>c.decoder.Decode(&m)\<close>: the message left in \<open>m\<close> and the error returned.
\<close>

fun listen_loop :: "('d NetworkMessage \<times> go_error option) list \<Rightarrow> 'd event list \<times> loop_end" where
  "listen_loop [] = ([], BlockedInDecode)"
| "listen_loop ((m, err) # rest) =
     (if err \<noteq> None then ([ConnClose, OnClientConnectionClosed err], LoopReturned)
      else (case listen_loop rest of (evs, fin) \<Rightarrow> (OnNewMessage m # evs, fin)))"

definition listen :: "('d NetworkMessage \<times> go_error option) list \<Rightarrow> 'd event list \<times> loop_end" where
  "listen outcomes = (case listen_loop outcomes of (evs, fin) \<Rightarrow> (OnNewClient # evs, fin))"

section \<open>Byte orders, as the specification words them\<close>

text \<open>A byte sequence read as an unsigned big-endian integer: the first byte is the most significant.\<close>

fun big_endian :: "bytes \<Rightarrow> nat" where
  "big_endian [] = 0"
| "big_endian (b # bs) = unat b * 256 ^ length bs + big_endian bs"

text \<open>The same sequence read little-endian: the first byte is the least significant.\<close>

fun little_endian :: "bytes \<Rightarrow> nat" where
  "little_endian [] = 0"
| "little_endian (b # bs) = unat b + 256 * little_endian bs"

text \<open>
  The minimal big-endian representation of a counter: its base-256 digits from the most
  significant to the least significant, without leading zeros (none at all for 0).
\<close>

fun minimal_big_endian :: "nat \<Rightarrow> nat list" where
  "minimal_big_endian n = (if n = 0 then [] else minimal_big_endian (n div 256) @ [n mod 256])"

declare minimal_big_endian.simps [simp del]

section \<open>The part of a record outside the best difficulty and the best nonce\<close>

text \<open>
  Every field of the record except \<open>Difficulty\<close>, and of the entry everything except
  slot 0 of \<open>ExtIDs\<close>: the chain id, the content, the number of slots and the slots
  after the first.
\<close>

definition all_but_best ::
  "OraclePriceRecord \<Rightarrow>
   config option \<times> real \<times> bytes \<times> string option \<times> (string \<times> bytes \<times> nat \<times> bytes list) option \<times>
   string \<times> 32 word \<times> string list \<times> string \<times> string list \<times> asset_list" where
  "all_but_best opr =
     (Config opr, Grade opr, OPRHash opr, EC opr,
      map_option (\<lambda>e. (ChainID e, Content e, length (ExtIDs e), tl (ExtIDs e))) (Entry opr),
      OPRChainID opr, Dbht opr, WinPreviousOPR opr, CoinbasePNTAddress opr,
      FactomDigitalID opr, Assets opr)"

section \<open>Concrete values for the examples\<close>

text \<open>
  A function of the right shape to stand for \<open>LX.Hash\<close> where an example needs to
  compute: eight bytes, the first eight bytes of the reversed input padded with zeros.
\<close>

definition sample_hash :: "bytes \<Rightarrow> bytes" where
  "sample_hash bs = take 8 (rev bs @ [0, 0, 0, 0, 0, 0, 0, 0])"

text \<open>
  A record as \<open>GetOPRecord\<close> leaves it when the serialized body is the two bytes
  \<open>[7, 1]\<close>, with a difficulty already stored.
\<close>

definition sample_opr :: OraclePriceRecord where
  "sample_opr =
     NewOraclePriceRecord
       \<lparr>Difficulty := 0x0100000000000007,
        OPRHash := [1, 7, 0, 0, 0, 0, 0, 0],
        Entry := Some \<lparr>ChainID = [], ExtIDs = [[]], Content = [7, 1]\<rparr>,
        Assets := [(''USD'', 1)]\<rparr>"

text \<open>
  A state of a run over \<open>sample_opr\<close>: the counter, the stored difficulty, the stored
  nonce, the place in the loop and the buffer of the channel.
\<close>

definition sample_state :: "uint64 \<Rightarrow> uint64 \<Rightarrow> bytes \<Rightarrow> pc \<Rightarrow> int list \<Rightarrow> mining" where
  "sample_state i d n p ch =
     \<lparr>m_pc = p, m_i = i,
      m_opr = sample_opr\<lparr>Difficulty := d, Entry := Some \<lparr>ChainID = [], ExtIDs = [n], Content = [7, 1]\<rparr>\<rparr>,
      m_chan = ch, m_stats = None\<rparr>"

text \<open>
  Stand-ins for what \<open>Validate\<close> takes from outside: the chain id of a list of
  strings is their concatenation, and an address decodes when it starts with
  \<open>tPNT_\<close>. The two configurations differ in the network only.
\<close>

definition sample_externals :: externals where
  "sample_externals =
     \<lparr>ChainIDFromStrings = concat,
      OPRChainTag = ''Chain'',
      ConvertPegAddrToRaw =
        (\<lambda>s. if take 5 s = ''tPNT_'' then (''tPNT'', [], None) else ([], [], Some ''bad address'')),
      AllAssets = [''PNT'', ''USD'']\<rparr>"

definition sample_config :: "string \<Rightarrow> config" where
  "sample_config network =
     (\<lambda>key. if key = ''Miner.Protocol'' then Some ''PegNet''
            else if key = ''Miner.Network'' then Some network
            else None)"

text \<open>A record that meets every rule for the chain of the given network.\<close>

definition sample_record :: "string \<Rightarrow> OraclePriceRecord" where
  "sample_record network =
     NewOraclePriceRecord
       \<lparr>OPRChainID := concat [''PegNet'', network, ''Chain''],
        CoinbasePNTAddress := ''tPNT_miner'',
        Assets := [(''PNT'', 0), (''USD'', 1)]\<rparr>"

text \<open>A message with no payload, and a winner whose entry has the given content.\<close>

definition sample_message :: "int \<Rightarrow> unit NetworkMessage" where
  "sample_message n = \<lparr>NetworkCommand = n, Data = ()\<rparr>"

definition sample_winner :: "bytes \<Rightarrow> OraclePriceRecord" where
  "sample_winner content =
     NewOraclePriceRecord\<lparr>Entry := Some \<lparr>ChainID = [], ExtIDs = [[]], Content = content\<rparr>\<rparr>"

section \<open>Properties of ComputeDifficulty\<close>

lemma byte_less: "unat (b :: byte) < 256"
  using unsigned_less [of b] by simp

lemma big_endian_snoc: "big_endian (bs @ [b]) = big_endian bs * 256 + unat b"
  by (induction bs) (simp_all add: algebra_simps)

lemma big_endian_bound: "big_endian bs < 256 ^ length bs"
proof (induction bs)
  case Nil
  show ?case by simp
next
  case (Cons b bs)
  have "unat b * 256 ^ length bs + big_endian bs < unat b * 256 ^ length bs + 256 ^ length bs"
    using Cons by simp
  also have "\<dots> = (unat b + 1) * 256 ^ length bs"
    by (simp add: algebra_simps)
  also have "\<dots> \<le> 256 * 256 ^ length bs"
    using byte_less [of b] by (intro mult_right_mono) simp_all
  finally show ?case by simp
qed

text \<open>One round of the loop, while the top byte of the accumulator is still free.\<close>

lemma shift_add_byte:
  fixes d :: uint64 and b :: byte
  assumes "unat d < 2 ^ 56"
  shows "unat (push_bit 8 d + ucast b) = unat d * 256 + unat b"
proof -
  have b: "unat b < 256"
    by (rule byte_less)
  have ub: "unat (ucast b :: uint64) = unat b"
    using b by (simp add: unsigned_ucast_eq take_bit_eq_mod)
  have "unat d * 256 < 2 ^ 64"
    using assms by simp
  then have "unat d * unat (256 :: uint64) < 2 ^ LENGTH(64)"
    by simp
  then have "unat (d * 256) = unat d * unat (256 :: uint64)"
    by (simp only: unat_mult_lem)
  then have pd: "unat (push_bit 8 d) = unat d * 256"
    by (simp add: push_bit_eq_mult)
  have "unat (push_bit 8 d) + unat (ucast b :: uint64) < 2 ^ LENGTH(64)"
    using assms b by (simp add: pd ub)
  then have "unat (push_bit 8 d + ucast b) = unat (push_bit 8 d) + unat (ucast b :: uint64)"
    by (simp only: unat_add_lem)
  then show ?thesis
    by (simp add: pd ub)
qed

lemma difficulty_loop_inv:
  "i \<le> 8 \<Longrightarrow> 8 \<le> length h \<Longrightarrow> unat d = big_endian (take i h) \<Longrightarrow>
   \<exists>d'. difficulty_loop h i d = Inr d' \<and> unat d' = big_endian (take 8 h)"
proof (induction h i d rule: difficulty_loop.induct)
  case (1 h i d)
  show ?case
  proof (cases "i < 8")
    case True
    then have il: "i < length h" using 1 by simp
    have "big_endian (take i h) < 256 ^ i"
      using big_endian_bound [of "take i h"] il by simp
    also have "\<dots> \<le> (256::nat) ^ 7"
      using True by (intro power_increasing) simp_all
    finally have "unat d < 2 ^ 56" using 1 by simp
    then have "unat (push_bit 8 d + ucast (h ! i)) = big_endian (take (Suc i) h)"
      using 1 il by (simp add: shift_add_byte take_Suc_conv_app_nth big_endian_snoc)
    then show ?thesis
      using 1 True il by (subst difficulty_loop.simps) simp
  next
    case False
    then show ?thesis using 1 by (subst difficulty_loop.simps) simp
  qed
qed

lemma big_endian_top:
  assumes "8 \<le> length h"
  shows "big_endian (take 8 h) div 2 ^ 56 = unat (h ! 0)"
proof -
  obtain b t where h: "h = b # t"
    using assms by (cases h) auto
  define r where "r = take 7 t"
  have len: "length r = 7"
    using assms h by (simp add: r_def)
  have t8: "take 8 h = b # r"
    by (simp add: h r_def)
  have "big_endian r < 256 ^ 7"
    using big_endian_bound [of r] by (simp only: len)
  then have "(unat b * 256 ^ 7 + big_endian r) div 2 ^ 56 = unat b"
    by simp
  moreover have "big_endian (take 8 h) = unat b * 256 ^ 7 + big_endian r"
    by (simp only: t8 big_endian.simps len)
  moreover have "h ! 0 = b"
    by (simp add: h)
  ultimately show ?thesis
    by (simp only:)
qed

lemma try_nonce_max:
  assumes "ComputeDifficulty H opr (mine_nonce i) = Inr d" and "try_nonce H opr i = Inr opr'"
  shows "Difficulty opr' = max (Difficulty opr) d"
  using assms
  by (auto simp: try_nonce_def Let_def max_def split: if_splits option.splits list.splits)

text \<open>
  Claim C2. When the hash has at least eight bytes, \<open>ComputeDifficulty\<close> returns the
  first eight bytes of the hash of the record hash followed by the nonce, read as an
  unsigned big-endian integer; byte 0 of the hash is the top byte of the result; and the
  loop body of \<open>Mine\<close> keeps the greater of the stored and the new difficulty, so higher
  counts as better.
\<close>

theorem ComputeDifficulty_big_endian:
  assumes "8 \<le> length (H (OPRHash opr @ nonce))"
  shows "\<exists>d. ComputeDifficulty H opr nonce = Inr d \<and>
             unat d = big_endian (take 8 (H (OPRHash opr @ nonce))) \<and>
             unat d div 2 ^ 56 = unat (H (OPRHash opr @ nonce) ! 0) \<and>
             (\<forall>i opr'. nonce = mine_nonce i \<longrightarrow> try_nonce H opr i = Inr opr' \<longrightarrow>
                        Difficulty opr' = max (Difficulty opr) d)"
proof -
  let ?h = "H (OPRHash opr @ nonce)"
  have "unat (0 :: uint64) = big_endian (take 0 ?h)"
    by simp
  then obtain d where d: "difficulty_loop ?h 0 0 = Inr d" "unat d = big_endian (take 8 ?h)"
    using difficulty_loop_inv [of 0 ?h 0] assms by auto
  have cd: "ComputeDifficulty H opr nonce = Inr d"
    by (simp add: ComputeDifficulty_def d(1))
  have "unat d div 2 ^ 56 = unat (?h ! 0)"
    using big_endian_top [OF assms] by (simp add: d(2))
  moreover have "Difficulty opr' = max (Difficulty opr) d"
    if "nonce = mine_nonce i" "try_nonce H opr i = Inr opr'" for i opr'
    using try_nonce_max [of H opr i d opr'] that cd by simp
  ultimately show ?thesis
    using cd d(2) by blast
qed

lemma sample_hash_eval: "sample_hash (OPRHash sample_opr @ mine_nonce 3) = [3, 0, 0, 0, 0, 0, 0, 7]"
  by (simp add: sample_hash_def sample_opr_def NewOraclePriceRecord_def mine_nonce_def nonce_loop.simps)

theorem ComputeDifficulty_big_endian_witness:
  "8 \<le> length (sample_hash (OPRHash sample_opr @ mine_nonce 3)) \<and>
   (\<exists>d. ComputeDifficulty sample_hash sample_opr (mine_nonce 3) = Inr d \<and>
        unat d = 0x0300000000000007 \<and> unat d div 2 ^ 56 = 3 \<and>
        (\<forall>opr'. try_nonce sample_hash sample_opr 3 = Inr opr' \<longrightarrow>
                 Difficulty opr' = max (Difficulty sample_opr) d))"
proof -
  have h: "8 \<le> length (sample_hash (OPRHash sample_opr @ mine_nonce 3))"
    by (simp add: sample_hash_eval)
  from ComputeDifficulty_big_endian [of sample_hash sample_opr "mine_nonce 3", OF h]
  obtain d where d: "ComputeDifficulty sample_hash sample_opr (mine_nonce 3) = Inr d"
    "unat d = big_endian (take 8 (sample_hash (OPRHash sample_opr @ mine_nonce 3)))"
    "unat d div 2 ^ 56 = unat (sample_hash (OPRHash sample_opr @ mine_nonce 3) ! 0)"
    "\<forall>i opr'. mine_nonce 3 = mine_nonce i \<longrightarrow> try_nonce sample_hash sample_opr i = Inr opr' \<longrightarrow>
                        Difficulty opr' = max (Difficulty sample_opr) d"
    by blast
  have "unat d = 0x0300000000000007"
    using d(2) by (simp add: sample_hash_eval)
  moreover have "unat d div 2 ^ 56 = 3"
    using d(3) by (simp add: sample_hash_eval)
  ultimately show ?thesis
    using h d(1) d(4) by blast
qed

section \<open>Properties of the nonce\<close>

lemma nonce_loop_digits:
  "map unat (nonce_loop j acc) = map unat acc @ rev (minimal_big_endian (unat j))"
proof (induction j acc rule: nonce_loop.induct)
  case (1 j nonce)
  show ?case
  proof (cases "0 < j")
    case True
    then have nz: "unat j \<noteq> 0" by (simp add: word_less_nat_alt)
    have b: "unat (ucast j :: byte) = unat j mod 256"
      by (simp add: unsigned_ucast_eq take_bit_eq_mod)
    have d: "unat (drop_bit 8 j) = unat j div 256"
      by (simp add: drop_bit_eq_div unat_div)
    have l: "nonce_loop j nonce = nonce_loop (drop_bit 8 j) (nonce @ [ucast j])"
      using True by (subst nonce_loop.simps) simp
    have r: "minimal_big_endian (unat j) = minimal_big_endian (unat j div 256) @ [unat j mod 256]"
      using nz by (subst minimal_big_endian.simps) simp
    show ?thesis
      using 1 True by (simp add: l r b d)
  next
    case False
    then have "unat j = 0" by (simp add: word_less_nat_alt)
    then show ?thesis using False
      by (subst nonce_loop.simps, subst minimal_big_endian.simps) simp
  qed
qed

lemma little_endian_snoc:
  "little_endian (bs @ [b]) = little_endian bs + 256 ^ length bs * unat b"
  by (induction bs) (simp_all add: algebra_simps)

lemma nonce_loop_value:
  "little_endian (nonce_loop j acc) = little_endian acc + 256 ^ length acc * unat j"
proof (induction j acc rule: nonce_loop.induct)
  case (1 j nonce)
  show ?case
  proof (cases "0 < j")
    case True
    have b: "unat (ucast j :: byte) = unat j mod 256"
      by (simp add: unsigned_ucast_eq take_bit_eq_mod)
    have d: "unat (drop_bit 8 j) = unat j div 256"
      by (simp add: drop_bit_eq_div unat_div)
    have l: "nonce_loop j nonce = nonce_loop (drop_bit 8 j) (nonce @ [ucast j])"
      using True by (subst nonce_loop.simps) simp
    define q r where "q = unat j div 256" and "r = unat j mod 256"
    have j: "unat j = r + 256 * q"
      by (simp add: q_def r_def)
    have "little_endian (nonce_loop j nonce) =
          little_endian nonce + 256 ^ length nonce * r + 256 ^ Suc (length nonce) * q"
      using 1 True by (simp add: l b d little_endian_snoc q_def r_def)
    also have "\<dots> = little_endian nonce + 256 ^ length nonce * (r + 256 * q)"
      by (simp add: algebra_simps)
    finally show ?thesis
      by (simp only: j)
  next
    case False
    then have "unat j = 0" by (simp add: word_less_nat_alt)
    then show ?thesis using False
      by (subst nonce_loop.simps) simp
  qed
qed

lemma minimal_big_endian_hd:
  "0 < n \<Longrightarrow> minimal_big_endian n \<noteq> [] \<and> hd (minimal_big_endian n) \<noteq> 0"
proof (induction n rule: minimal_big_endian.induct)
  case (1 n)
  have r: "minimal_big_endian n = minimal_big_endian (n div 256) @ [n mod 256]"
    using 1 by (subst minimal_big_endian.simps) simp
  show ?case
  proof (cases "n div 256 = 0")
    case True
    then have "minimal_big_endian (n div 256) = []"
      by (simp add: minimal_big_endian.simps)
    moreover have "n mod 256 \<noteq> 0"
      using True 1 by (simp add: div_eq_0_iff)
    ultimately show ?thesis
      by (simp add: r)
  next
    case False
    then have "minimal_big_endian (n div 256) \<noteq> [] \<and> hd (minimal_big_endian (n div 256)) \<noteq> 0"
      using 1 by simp
    then show ?thesis
      by (simp add: r)
  qed
qed

lemma minimal_big_endian_length:
  "n < 256 ^ length (minimal_big_endian n) \<and>
   (0 < n \<longrightarrow> 256 ^ (length (minimal_big_endian n) - 1) \<le> n)"
proof (induction n rule: minimal_big_endian.induct)
  case (1 n)
  show ?case
  proof (cases "n = 0")
    case True
    then show ?thesis by (simp add: minimal_big_endian.simps)
  next
    case False
    let ?k = "length (minimal_big_endian (n div 256))"
    have r: "minimal_big_endian n = minimal_big_endian (n div 256) @ [n mod 256]"
      using False by (subst minimal_big_endian.simps) simp
    have ih: "n div 256 < 256 ^ ?k" "0 < n div 256 \<longrightarrow> 256 ^ (?k - 1) \<le> n div 256"
      using 1 False by simp_all
    have up: "n < 256 ^ Suc ?k"
      using ih(1) by (simp add: less_mult_imp_div_less mult.commute div_less_iff_less_mult)
    have lo: "256 ^ ?k \<le> n"
    proof (cases "n div 256 = 0")
      case True
      then have "?k = 0" by (simp add: minimal_big_endian.simps)
      then show ?thesis using False by simp
    next
      case False
      then have "0 < ?k"
        using minimal_big_endian_hd [of "n div 256"] by simp
      then have "(256::nat) ^ ?k = 256 * 256 ^ (?k - 1)"
        by (cases ?k) simp_all
      also have "\<dots> \<le> 256 * (n div 256)"
        using ih(2) False by simp
      also have "\<dots> \<le> n"
        by simp
      finally show ?thesis .
    qed
    show ?thesis
      using up lo by (simp add: r)
  qed
qed

text \<open>
  Claim C3, amended. The nonce tried at counter \<open>i\<close> holds the base-256 digits of
  \<open>i\<close> from the least significant to the most significant: it is the minimal
  big-endian representation reversed, it reads back as \<open>i\<close> little-endian, its last
  byte (the most significant digit) is not zero, and its length is the number of base-256
  digits of \<open>i\<close> (none for 0).
\<close>

theorem mine_nonce_little_endian:
  "map unat (mine_nonce i) = rev (minimal_big_endian (unat i)) \<and>
   little_endian (mine_nonce i) = unat i \<and>
   (mine_nonce i \<noteq> [] \<longrightarrow> last (mine_nonce i) \<noteq> 0) \<and>
   unat i < 256 ^ length (mine_nonce i) \<and>
   (i \<noteq> 0 \<longrightarrow> 256 ^ (length (mine_nonce i) - 1) \<le> unat i)"
proof -
  have digits: "map unat (mine_nonce i) = rev (minimal_big_endian (unat i))"
    by (simp add: mine_nonce_def nonce_loop_digits)
  then have len: "length (mine_nonce i) = length (minimal_big_endian (unat i))"
    by (metis length_map length_rev)
  have val: "little_endian (mine_nonce i) = unat i"
    by (simp add: mine_nonce_def nonce_loop_value)
  have top: "last (mine_nonce i) \<noteq> 0" if ne: "mine_nonce i \<noteq> []"
  proof -
    have "minimal_big_endian (unat i) \<noteq> []"
      using ne digits by auto
    then have pos: "0 < unat i"
      by (cases "unat i = 0") (simp_all add: minimal_big_endian.simps)
    have "unat (last (mine_nonce i)) = last (map unat (mine_nonce i))"
      using ne by (simp add: last_map)
    also have "\<dots> = hd (minimal_big_endian (unat i))"
      using minimal_big_endian_hd [OF pos] by (simp add: digits last_rev)
    finally show ?thesis
      using minimal_big_endian_hd [OF pos] by auto
  qed
  have pos: "0 < unat i" if "i \<noteq> 0"
    using that by (simp add: unat_gt_0)
  show ?thesis
    using digits val top minimal_big_endian_length [of "unat i"] pos
    by (simp add: len)
qed

theorem mine_nonce_little_endian_witness:
  "mine_nonce 258 = [2, 1] \<and> little_endian (mine_nonce 258) = 258 \<and> last (mine_nonce 258) \<noteq> 0 \<and>
   (256::nat) ^ (length (mine_nonce 258) - 1) \<le> unat (258 :: uint64)"
  using mine_nonce_little_endian [of 258]
  by (simp add: mine_nonce_def nonce_loop.simps)

text \<open>
  Claim C3 as stated fails at counter 256: the loop appends the low byte first, so the
  nonce is \<open>[0, 1]\<close>, while the minimal big-endian representation is \<open>[1, 0]\<close>.
\<close>

theorem mine_nonce_big_endian_counterexample:
  "mine_nonce 256 = [0, 1] \<and> minimal_big_endian (unat (256 :: uint64)) = [1, 0] \<and>
   map unat (mine_nonce 256) \<noteq> minimal_big_endian (unat (256 :: uint64))"
  by (simp add: mine_nonce_def nonce_loop.simps minimal_big_endian.simps)

section \<open>Properties of Mine\<close>

lemma try_nonce_elim [consumes 1, case_names keep update]:
  assumes "try_nonce H opr i = Inr opr'"
  obtains
    (keep) d where "ComputeDifficulty H opr (mine_nonce i) = Inr d" "d \<le> Difficulty opr" "opr' = opr"
  | (update) d e x xs where "ComputeDifficulty H opr (mine_nonce i) = Inr d" "Difficulty opr < d"
      "Entry opr = Some e" "ExtIDs e = x # xs"
      "opr' = opr\<lparr>Difficulty := d, Entry := Some (e\<lparr>ExtIDs := mine_nonce i # xs\<rparr>)\<rparr>"
proof -
  obtain d where d: "ComputeDifficulty H opr (mine_nonce i) = Inr d"
    using assms by (cases "ComputeDifficulty H opr (mine_nonce i)") (simp_all add: try_nonce_def Let_def)
  show thesis
  proof (cases "Difficulty opr < d")
    case False
    then have "opr' = opr"
      using assms d by (simp add: try_nonce_def Let_def)
    then show thesis
      using keep [of d] d False by simp
  next
    case True
    obtain e where e: "Entry opr = Some e"
      using assms d True by (cases "Entry opr") (simp_all add: try_nonce_def Let_def)
    obtain x xs where x: "ExtIDs e = x # xs"
      using assms d True e by (cases "ExtIDs e") (simp_all add: try_nonce_def Let_def)
    have "opr' = opr\<lparr>Difficulty := d, Entry := Some (e\<lparr>ExtIDs := mine_nonce i # xs\<rparr>)\<rparr>"
      using assms d True e x by (simp add: try_nonce_def Let_def)
    then show thesis
      using update [of d e x xs] d True e x by simp
  qed
qed

lemma try_nonce_panic_elim [consumes 1, case_names hash slot]:
  assumes "try_nonce H opr i = Inl (p, opr')"
  obtains
    (hash) "ComputeDifficulty H opr (mine_nonce i) = Inl p" "opr' = opr"
  | (slot) d where "ComputeDifficulty H opr (mine_nonce i) = Inr d" "Difficulty opr < d"
      "opr' = opr\<lparr>Difficulty := d\<rparr>"
      "Entry opr = None \<or> (\<exists>e. Entry opr = Some e \<and> ExtIDs e = [])"
proof (cases "ComputeDifficulty H opr (mine_nonce i)")
  case (Inl e)
  have "e = p" and "opr' = opr"
    using assms Inl by (simp_all add: try_nonce_def Let_def)
  then show thesis
    using Inl by (intro hash) simp_all
next
  case (Inr d)
  have lt: "Difficulty opr < d"
    using assms Inr by (cases "Difficulty opr < d") (simp_all add: try_nonce_def Let_def)
  show thesis
  proof (cases "Entry opr")
    case None
    have "opr' = opr\<lparr>Difficulty := d\<rparr>"
      using assms Inr lt None by (simp add: try_nonce_def Let_def)
    then show thesis
      using Inr lt None by (intro slot [of d]) simp_all
  next
    case (Some e)
    show thesis
    proof (cases "ExtIDs e")
      case Nil
      have "opr' = opr\<lparr>Difficulty := d\<rparr>"
        using assms Inr lt Some Nil by (simp add: try_nonce_def Let_def)
      then show thesis
        using Inr lt Some Nil by (intro slot [of d]) simp_all
    next
      case (Cons x xs)
      then have False
        using assms Inr lt Some by (simp add: try_nonce_def Let_def)
      then show thesis ..
    qed
  qed
qed

lemma run_append:
  "run H (xs @ ys) s = (case run H xs s of None \<Rightarrow> None | Some t \<Rightarrow> run H ys t)"
  by (induction xs arbitrary: s) (auto split: option.splits)

lemma step_not_Body_opr:
  "step H a s = Some s' \<Longrightarrow> a \<noteq> Body \<Longrightarrow> m_opr s' = m_opr s"
  by (cases a) (auto split: if_splits list.splits)

lemma step_Body_elim [consumes 1, case_names panicked advanced]:
  assumes "step H Body s = Some s'"
  obtains
    (panicked) e opr' where "m_pc s = AtBody" "try_nonce H (m_opr s) (m_i s) = Inl (e, opr')"
      "s' = s\<lparr>m_pc := Panicked e, m_opr := opr'\<rparr>"
  | (advanced) opr' where "m_pc s = AtBody" "try_nonce H (m_opr s) (m_i s) = Inr opr'"
      "s' = s\<lparr>m_pc := AtSelect, m_i := m_i s + 1, m_opr := opr'\<rparr>"
proof -
  have pc: "m_pc s = AtBody"
    using assms by (simp split: if_splits)
  show thesis
  proof (cases "try_nonce H (m_opr s) (m_i s)")
    case (Inl q)
    obtain e opr' where q: "q = (e, opr')"
      by (cases q)
    show thesis
      using assms pc Inl panicked [of e opr'] by (simp add: q)
  next
    case (Inr opr')
    then show thesis
      using assms pc advanced [of opr'] by simp
  qed
qed

lemma try_nonce_mono:
  assumes "try_nonce H opr i = Inr opr'"
  shows "Difficulty opr \<le> Difficulty opr'"
  using assms
proof (cases rule: try_nonce_elim)
  case (keep d)
  then show ?thesis by simp
next
  case (update d e x xs)
  then show ?thesis by simp
qed

lemma try_nonce_panic_mono:
  assumes "try_nonce H opr i = Inl (p, opr')"
  shows "Difficulty opr \<le> Difficulty opr'"
  using assms
proof (cases rule: try_nonce_panic_elim)
  case hash
  then show ?thesis by simp
next
  case (slot d)
  then show ?thesis by simp
qed

lemma step_difficulty_mono:
  assumes "step H a s = Some s'"
  shows "Difficulty (m_opr s) \<le> Difficulty (m_opr s')"
proof (cases "a = Body")
  case True
  with assms have "step H Body s = Some s'" by simp
  then show ?thesis
  proof (cases rule: step_Body_elim)
    case (panicked e opr')
    then show ?thesis using try_nonce_panic_mono [of H "m_opr s" "m_i s" e opr'] by simp
  next
    case (advanced opr')
    then show ?thesis using try_nonce_mono [of H "m_opr s" "m_i s" opr'] by simp
  qed
next
  case False
  then show ?thesis
    using step_not_Body_opr [OF assms] by simp
qed

lemma run_difficulty_mono:
  "run H acts s = Some s' \<Longrightarrow> Difficulty (m_opr s) \<le> Difficulty (m_opr s')"
proof (induction acts arbitrary: s)
  case Nil
  then show ?case by simp
next
  case (Cons a acts)
  then obtain t where t: "step H a s = Some t" "run H acts t = Some s'"
    by (auto split: option.splits)
  have "Difficulty (m_opr s) \<le> Difficulty (m_opr t)"
    using t(1) by (rule step_difficulty_mono)
  also have "\<dots> \<le> Difficulty (m_opr s')"
    using t(2) by (rule Cons.IH)
  finally show ?case .
qed

lemma step_update_together:
  assumes "step H a s = Some s'"
  shows "m_opr s' = m_opr s \<or>
         (a = Body \<and>
          (\<exists>d. ComputeDifficulty H (m_opr s) (mine_nonce (m_i s)) = Inr d \<and>
               Difficulty (m_opr s) < d \<and> Difficulty (m_opr s') = d \<and>
               ((\<exists>e e'. Entry (m_opr s) = Some e \<and> ExtIDs e \<noteq> [] \<and> Entry (m_opr s') = Some e' \<and>
                        ExtIDs e' = mine_nonce (m_i s) # tl (ExtIDs e)) \<or>
                ((\<exists>p. m_pc s' = Panicked p) \<and>
                 (Entry (m_opr s) = None \<or> (\<exists>e. Entry (m_opr s) = Some e \<and> ExtIDs e = []))))))"
proof (cases "a = Body")
  case True
  with assms have "step H Body s = Some s'" by simp
  then show ?thesis
  proof (cases rule: step_Body_elim)
    case (panicked p opr')
    from panicked(2) show ?thesis
    proof (cases rule: try_nonce_panic_elim)
      case hash
      then show ?thesis using panicked(3) by simp
    next
      case (slot d)
      have "Difficulty (m_opr s') = d"
        using slot(3) panicked(3) by simp
      moreover have "\<exists>p. m_pc s' = Panicked p"
        using panicked(3) by simp
      ultimately show ?thesis
        using True slot(1,2,4) by blast
    qed
  next
    case (advanced opr')
    from advanced(2) show ?thesis
    proof (cases rule: try_nonce_elim)
      case (keep d)
      then show ?thesis using advanced(3) by simp
    next
      case (update d e x xs)
      have "Difficulty (m_opr s') = d"
        using update(5) advanced(3) by simp
      moreover have "Entry (m_opr s') = Some (e\<lparr>ExtIDs := mine_nonce (m_i s) # xs\<rparr>)"
        using update(5) advanced(3) by simp
      moreover have "ExtIDs (e\<lparr>ExtIDs := mine_nonce (m_i s) # xs\<rparr>) = mine_nonce (m_i s) # tl (ExtIDs e)"
        using update(4) by simp
      moreover have "ExtIDs e \<noteq> []"
        using update(4) by simp
      ultimately show ?thesis
        using True update(1-3) by blast
    qed
  qed
next
  case False
  then show ?thesis
    using step_not_Body_opr [OF assms] by simp
qed

text \<open>
  Claim C4. Over any sequence of actions of a run the stored difficulty never decreases;
  and a single action either leaves the record as it is, or it is a loop body whose newly
  computed difficulty is strictly greater than the stored one, and then the difficulty and
  slot 0 of \<open>ExtIDs\<close> are written together: the new difficulty, and the nonce it was
  computed from. (When the record has no entry, or its entry no slot 0, that body ends the
  run in a panic right after the difficulty is written.)
\<close>

theorem Mine_difficulty_monotone:
  "(run H acts s = Some s' \<longrightarrow> Difficulty (m_opr s) \<le> Difficulty (m_opr s')) \<and>
   (step H a t = Some t' \<longrightarrow>
      m_opr t' = m_opr t \<or>
      (a = Body \<and>
       (\<exists>d. ComputeDifficulty H (m_opr t) (mine_nonce (m_i t)) = Inr d \<and>
            Difficulty (m_opr t) < d \<and> Difficulty (m_opr t') = d \<and>
            ((\<exists>e e'. Entry (m_opr t) = Some e \<and> ExtIDs e \<noteq> [] \<and> Entry (m_opr t') = Some e' \<and>
                     ExtIDs e' = mine_nonce (m_i t) # tl (ExtIDs e)) \<or>
             ((\<exists>p. m_pc t' = Panicked p) \<and>
              (Entry (m_opr t) = None \<or> (\<exists>e. Entry (m_opr t) = Some e \<and> ExtIDs e = [])))))))"
  using run_difficulty_mono [of H acts s s'] step_update_together [of H a t t']
  by blast

lemma step_Send:
  "step H (Send v) s = Some s' \<Longrightarrow> s' = s\<lparr>m_chan := m_chan s @ [v]\<rparr>"
  by (simp split: if_splits)

lemma step_Select_pending:
  assumes "step H Select s = Some s'" and "m_chan s \<noteq> []"
  shows "m_pc s = AtSelect \<and> m_pc s' = Returned \<and> m_opr s' = m_opr s \<and>
         m_stats s' = Some (m_i s, Difficulty (m_opr s))"
proof -
  have pc: "m_pc s = AtSelect"
    using assms(1) by (simp split: if_splits)
  obtain v vs where "m_chan s = v # vs"
    using assms(2) by (cases "m_chan s") auto
  then show ?thesis
    using assms(1) pc by auto
qed

text \<open>A run that has left the loop, or has panicked, only receives sends.\<close>

lemma step_finished:
  assumes "step H a s = Some s'" and "m_pc s = Returned \<or> (\<exists>e. m_pc s = Panicked e)"
  shows "(\<exists>v. a = Send v) \<and> m_pc s' = m_pc s \<and> m_opr s' = m_opr s"
proof (cases a)
  case (Send v)
  then have "step H (Send v) s = Some s'"
    using assms(1) by (simp only:)
  from step_Send [OF this] show ?thesis
    by (simp add: Send)
next
  case Select
  then have "step H Select s = Some s'"
    using assms(1) by (simp only:)
  then have "m_pc s = AtSelect"
    by (simp split: if_splits)
  then show ?thesis using assms(2) by simp
next
  case Body
  then have "step H Body s = Some s'"
    using assms(1) by (simp only:)
  then have "m_pc s = AtBody"
    by (simp split: if_splits)
  then show ?thesis using assms(2) by simp
qed

lemma run_finished:
  "run H acts s = Some s' \<Longrightarrow> m_pc s = Returned \<or> (\<exists>e. m_pc s = Panicked e) \<Longrightarrow>
   filter (\<lambda>a. a = Body) acts = [] \<and> Select \<notin> set acts \<and> m_pc s' = m_pc s \<and> m_opr s' = m_opr s"
proof (induction acts arbitrary: s)
  case Nil
  then show ?case by simp
next
  case (Cons a acts)
  then obtain t where t: "step H a s = Some t" "run H acts t = Some s'"
    by (auto split: option.splits)
  have a: "(\<exists>v. a = Send v) \<and> m_pc t = m_pc s \<and> m_opr t = m_opr s"
    using step_finished [OF t(1) Cons.prems(2)] .
  then have "m_pc t = Returned \<or> (\<exists>e. m_pc t = Panicked e)"
    using Cons.prems(2) by simp
  from Cons.IH [OF t(2) this] a show ?case
    by auto
qed

text \<open>At the select with a value pending: no body is executed any more.\<close>

lemma run_at_select_pending:
  "run H acts s = Some s' \<Longrightarrow> m_pc s = AtSelect \<Longrightarrow> m_chan s \<noteq> [] \<Longrightarrow>
   filter (\<lambda>a. a = Body) acts = [] \<and> (Select \<in> set acts \<longrightarrow> m_pc s' = Returned \<and> m_opr s' = m_opr s)"
proof (induction acts arbitrary: s)
  case Nil
  then show ?case by simp
next
  case (Cons a acts)
  then obtain t where t: "step H a s = Some t" "run H acts t = Some s'"
    by (auto split: option.splits)
  show ?case
  proof (cases a)
    case (Send v)
    then have "step H (Send v) s = Some t"
      using t(1) by (simp only:)
    then have "t = s\<lparr>m_chan := m_chan s @ [v]\<rparr>"
      by (rule step_Send)
    then have f: "m_pc t = AtSelect" "m_chan t \<noteq> []" "m_opr t = m_opr s"
      using Cons.prems by simp_all
    have "filter (\<lambda>a. a = Body) acts = [] \<and>
          (Select \<in> set acts \<longrightarrow> m_pc s' = Returned \<and> m_opr s' = m_opr t)"
      using Cons.IH [OF t(2) f(1) f(2)] .
    then show ?thesis
      by (simp add: Send f(3))
  next
    case Select
    then have "step H Select s = Some t"
      using t(1) by (simp only:)
    from step_Select_pending [OF this Cons.prems(3)]
    have r: "m_pc t = Returned" "m_opr t = m_opr s"
      by simp_all
    have "filter (\<lambda>a. a = Body) acts = [] \<and> Select \<notin> set acts \<and>
          m_pc s' = m_pc t \<and> m_opr s' = m_opr t"
      using r(1) by (intro run_finished [OF t(2)]) simp
    then show ?thesis
      by (simp add: Select r)
  next
    case Body
    then have "step H Body s = Some t"
      using t(1) by (simp only:)
    then have "m_pc s = AtBody"
      by (cases rule: step_Body_elim)
    then show ?thesis
      using Cons.prems(2) by simp
  qed
qed

lemma run_pending:
  "run H acts s = Some s' \<Longrightarrow> m_chan s \<noteq> [] \<Longrightarrow>
   length (filter (\<lambda>a. a = Body) acts) \<le> 1 \<and> (Select \<in> set acts \<longrightarrow> m_pc s' = Returned)"
proof (induction acts arbitrary: s)
  case Nil
  then show ?case by simp
next
  case (Cons a acts)
  then obtain t where t: "step H a s = Some t" "run H acts t = Some s'"
    by (auto split: option.splits)
  show ?case
  proof (cases a)
    case (Send v)
    then have "step H (Send v) s = Some t"
      using t(1) by (simp only:)
    then have "t = s\<lparr>m_chan := m_chan s @ [v]\<rparr>"
      by (rule step_Send)
    then have f: "m_chan t \<noteq> []"
      by simp
    have "length (filter (\<lambda>a. a = Body) acts) \<le> 1 \<and> (Select \<in> set acts \<longrightarrow> m_pc s' = Returned)"
      using Cons.IH [OF t(2) f] .
    then show ?thesis
      by (simp add: Send)
  next
    case Select
    then have "step H Select s = Some t"
      using t(1) by (simp only:)
    from step_Select_pending [OF this Cons.prems(2)]
    have r: "m_pc t = Returned"
      by simp
    have "filter (\<lambda>a. a = Body) acts = [] \<and> Select \<notin> set acts \<and>
          m_pc s' = m_pc t \<and> m_opr s' = m_opr t"
      using r by (intro run_finished [OF t(2)]) simp
    then show ?thesis
      by (simp add: Select r)
  next
    case Body
    then have "step H Body s = Some t"
      using t(1) by (simp only:)
    then show ?thesis
    proof (cases rule: step_Body_elim)
      case (panicked e opr')
      then have "m_pc t = Returned \<or> (\<exists>e. m_pc t = Panicked e)" by simp
      from run_finished [OF t(2) this] show ?thesis
        by (simp add: Body)
    next
      case (advanced opr')
      then have f: "m_pc t = AtSelect" "m_chan t \<noteq> []"
        using Cons.prems(2) by simp_all
      from run_at_select_pending [OF t(2) f] show ?thesis
        by (simp add: Body)
    qed
  qed
qed

text \<open>
  Claim C5. Once a value has been sent on \<open>StopMining\<close>, at most one loop body (one
  difficulty computation) is executed afterwards, and the first \<open>select\<close> after the
  send leaves the loop. From the state right after the send the run does leave it: at the
  \<open>select\<close> it returns at once with the record as it is; past the \<open>select\<close> it
  executes the one body and returns at the next \<open>select\<close> with the record that body
  left (or the body panics).
\<close>

theorem cancel_bounds_iterations:
  assumes "run H (pre @ Send v # post) s = Some s'"
  shows "\<exists>t. run H (pre @ [Send v]) s = Some t \<and> m_chan t \<noteq> [] \<and>
           length (filter (\<lambda>a. a = Body) post) \<le> 1 \<and>
           (Select \<in> set post \<longrightarrow> m_pc s' = Returned) \<and>
           (m_pc t = AtSelect \<longrightarrow>
              (\<exists>u. run H [Select] t = Some u \<and> m_pc u = Returned \<and> m_opr u = m_opr t)) \<and>
           (m_pc t = AtBody \<longrightarrow>
              (\<exists>u e. run H [Body] t = Some u \<and> m_pc u = Panicked e) \<or>
              (\<exists>u. run H [Body, Select] t = Some u \<and> m_pc u = Returned \<and>
                    try_nonce H (m_opr t) (m_i t) = Inr (m_opr u)))"
proof -
  obtain r where r: "run H pre s = Some r" "run H (Send v # post) r = Some s'"
    using assms by (auto simp: run_append split: option.splits)
  then obtain t where t: "step H (Send v) r = Some t" "run H post t = Some s'"
    by (auto split: option.splits)
  have pt: "run H (pre @ [Send v]) s = Some t"
    using r(1) t(1) by (simp add: run_append)
  have ch: "m_chan t \<noteq> []"
    using step_Send [OF t(1)] by simp
  then obtain x xs where x: "m_chan t = x # xs"
    by (cases "m_chan t") auto
  have bound: "length (filter (\<lambda>a. a = Body) post) \<le> 1 \<and> (Select \<in> set post \<longrightarrow> m_pc s' = Returned)"
    using run_pending [OF t(2) ch] .
  have sel: "\<exists>u. run H [Select] t = Some u \<and> m_pc u = Returned \<and> m_opr u = m_opr t"
    if "m_pc t = AtSelect"
    using that x by simp
  have body: "(\<exists>u e. run H [Body] t = Some u \<and> m_pc u = Panicked e) \<or>
              (\<exists>u. run H [Body, Select] t = Some u \<and> m_pc u = Returned \<and>
                    try_nonce H (m_opr t) (m_i t) = Inr (m_opr u))"
    if "m_pc t = AtBody"
  proof (cases "try_nonce H (m_opr t) (m_i t)")
    case (Inl q)
    obtain e opr' where "q = (e, opr')"
      by (cases q)
    then show ?thesis using that Inl by simp
  next
    case (Inr opr')
    then show ?thesis using that x by simp
  qed
  show ?thesis
    using pt ch bound sel body by blast
qed

lemma try_nonce_frame:
  assumes "try_nonce H opr i = Inr opr'"
  shows "all_but_best opr' = all_but_best opr"
  using assms
proof (cases rule: try_nonce_elim)
  case (keep d)
  then show ?thesis by simp
next
  case (update d e x xs)
  then show ?thesis by (simp add: all_but_best_def)
qed

lemma try_nonce_panic_frame:
  assumes "try_nonce H opr i = Inl (p, opr')"
  shows "all_but_best opr' = all_but_best opr"
  using assms
proof (cases rule: try_nonce_panic_elim)
  case hash
  then show ?thesis by simp
next
  case (slot d)
  then show ?thesis by (simp add: all_but_best_def)
qed

lemma step_frame:
  assumes "step H a s = Some s'"
  shows "all_but_best (m_opr s') = all_but_best (m_opr s)"
proof (cases "a = Body")
  case True
  then have "step H Body s = Some s'"
    using assms by (simp only:)
  then show ?thesis
  proof (cases rule: step_Body_elim)
    case (panicked e opr')
    then show ?thesis using try_nonce_panic_frame [of H "m_opr s" "m_i s" e opr'] by simp
  next
    case (advanced opr')
    then show ?thesis using try_nonce_frame [of H "m_opr s" "m_i s" opr'] by simp
  qed
next
  case False
  then show ?thesis
    using step_not_Body_opr [OF assms] by simp
qed

lemma run_frame:
  "run H acts s = Some s' \<Longrightarrow> all_but_best (m_opr s') = all_but_best (m_opr s)"
proof (induction acts arbitrary: s)
  case Nil
  then show ?case by simp
next
  case (Cons a acts)
  then obtain t where t: "step H a s = Some t" "run H acts t = Some s'"
    by (auto split: option.splits)
  have "all_but_best (m_opr s') = all_but_best (m_opr t)"
    using t(2) by (rule Cons.IH)
  also have "\<dots> = all_but_best (m_opr s)"
    using t(1) by (rule step_frame)
  finally show ?case .
qed

lemma all_but_best_hash: "all_but_best a = all_but_best b \<Longrightarrow> OPRHash a = OPRHash b"
  by (simp add: all_but_best_def)

lemma all_but_best_json: "all_but_best a = all_but_best b \<Longrightarrow> json_fields a = json_fields b"
  by (simp add: all_but_best_def json_fields_def)

lemma GetOPRecord_hash:
  assumes "GetOPRecord H marshal decode58 Peg r c = Inr opr"
  shows "\<exists>content e. marshal (json_fields opr) = Some content \<and> OPRHash opr = H content \<and>
           Entry opr = Some e \<and> Content e = content \<and> ExtIDs e = [[]]"
proof -
  define opr1 where "opr1 = SetPegValues (r\<lparr>Config := c\<rparr>) Peg"
  define entry where "entry = \<lparr>ChainID = EncodeToString (decode58 (OPRChainID opr1)), ExtIDs = [[]], Content = []\<rparr>"
  define opr2 where "opr2 = opr1\<lparr>Entry := Some entry\<rparr>"
  obtain content where m: "marshal (json_fields opr2) = Some content"
    using assms
    by (cases "marshal (json_fields opr2)")
       (simp_all add: GetOPRecord_def Let_def opr1_def entry_def opr2_def)
  have opr: "opr = opr2\<lparr>Entry := Some (entry\<lparr>Content := content\<rparr>), OPRHash := H content\<rparr>"
    using assms m
    by (simp add: GetOPRecord_def Let_def opr1_def entry_def opr2_def)
  have "json_fields opr = json_fields opr2"
    by (simp add: opr json_fields_def)
  then show ?thesis
    using m by (simp add: opr entry_def)
qed

text \<open>
  Claim C7. A run of \<open>Mine\<close> changes nothing of the record but \<open>Difficulty\<close> and
  slot 0 of \<open>ExtIDs\<close>: the record hash and the serialized fields are those of the
  start, every difficulty computation of the run depends on the record through that same
  hash only, and when the record came from \<open>GetOPRecord\<close>, its hash is still the hash
  of its serialized body after the run.
\<close>

theorem Mine_frame:
  assumes "run H acts s = Some s'"
  shows "all_but_best (m_opr s') = all_but_best (m_opr s) \<and>
         OPRHash (m_opr s') = OPRHash (m_opr s) \<and>
         json_fields (m_opr s') = json_fields (m_opr s) \<and>
         (\<forall>nonce. ComputeDifficulty H (m_opr s') nonce = ComputeDifficulty H (m_opr s) nonce) \<and>
         (\<forall>marshal decode58 Peg r c.
            GetOPRecord H marshal decode58 Peg r c = Inr (m_opr s) \<longrightarrow>
            (\<exists>content. marshal (json_fields (m_opr s')) = Some content \<and>
                       OPRHash (m_opr s') = H content))"
proof -
  have f: "all_but_best (m_opr s') = all_but_best (m_opr s)"
    using assms by (rule run_frame)
  have h: "OPRHash (m_opr s') = OPRHash (m_opr s)"
    using f by (rule all_but_best_hash)
  have j: "json_fields (m_opr s') = json_fields (m_opr s)"
    using f by (rule all_but_best_json)
  have cd: "ComputeDifficulty H (m_opr s') nonce = ComputeDifficulty H (m_opr s) nonce" for nonce
    by (simp add: ComputeDifficulty_def h)
  have g: "\<exists>content. marshal (json_fields (m_opr s')) = Some content \<and> OPRHash (m_opr s') = H content"
    if "GetOPRecord H marshal decode58 Peg r c = Inr (m_opr s)" for marshal decode58 Peg r c
    using GetOPRecord_hash [OF that] by (auto simp: h j)
  show ?thesis
    using f h j cd g by blast
qed

text \<open>The sample run, action by action.\<close>

lemmas sample_defs = sample_state_def sample_opr_def NewOraclePriceRecord_def sample_hash_def
  try_nonce_def ComputeDifficulty_def mine_nonce_def nonce_loop.simps difficulty_loop.simps

lemma sample_start: "Mine_start sample_opr [] = sample_state 0 0x0100000000000007 [] AtSelect []"
  by (simp add: Mine_start_def sample_state_def sample_opr_def NewOraclePriceRecord_def)

lemma sample_GetOPRecord:
  "GetOPRecord sample_hash (\<lambda>body. Some [7, 1]) (\<lambda>s. []) [(''USD'', 1)]
     (NewOraclePriceRecord\<lparr>Difficulty := 0x0100000000000007\<rparr>) None = Inr sample_opr"
  by (simp add: GetOPRecord_def sample_opr_def NewOraclePriceRecord_def sample_hash_def EncodeToString_def)

lemma sample_select:
  "step H Select (sample_state i d n AtSelect []) = Some (sample_state i d n AtBody [])"
  by (simp add: sample_state_def)

lemma sample_body_0:
  "step sample_hash Body (sample_state 0 0x0100000000000007 [] AtBody ch) =
   Some (sample_state 1 0x0100000000000007 [] AtSelect ch)"
  by (simp add: sample_defs)

lemma sample_body_1:
  "step sample_hash Body (sample_state 1 0x0100000000000007 [] AtBody ch) =
   Some (sample_state 2 0x0100000000000007 [] AtSelect ch)"
  by (simp add: sample_defs)

lemma sample_body_2:
  "step sample_hash Body (sample_state 2 0x0100000000000007 [] AtBody ch) =
   Some (sample_state 3 0x0200000000000007 [2] AtSelect ch)"
  by (simp add: sample_defs)

lemma sample_send:
  "step H (Send 1) (sample_state i d n p []) = Some (sample_state i d n p [1])"
  by (simp add: sample_state_def StopMining_cap_def)

lemma sample_return:
  "step H Select (sample_state i d n AtSelect [1]) =
   Some ((sample_state i d n Returned [])\<lparr>m_stats := Some (i, d)\<rparr>)"
  by (simp add: sample_state_def)

lemma sample_run_5:
  "run sample_hash [Select, Body, Select, Body, Select] (Mine_start sample_opr []) =
   Some (sample_state 2 0x0100000000000007 [] AtBody [])"
  by (simp add: sample_start sample_select sample_body_0 sample_body_1 del: step.simps)

lemma sample_run_6:
  "run sample_hash [Select, Body, Select, Body, Select, Body] (Mine_start sample_opr []) =
   Some (sample_state 3 0x0200000000000007 [2] AtSelect [])"
  by (simp add: sample_start sample_select sample_body_0 sample_body_1 sample_body_2 del: step.simps)

theorem Mine_difficulty_monotone_witness:
  "run sample_hash [Select, Body, Select, Body, Select, Body] (Mine_start sample_opr []) =
     Some (sample_state 3 0x0200000000000007 [2] AtSelect []) \<and>
   Difficulty (m_opr (Mine_start sample_opr [])) \<le>
     Difficulty (m_opr (sample_state 3 0x0200000000000007 [2] AtSelect [])) \<and>
   step sample_hash Body (sample_state 2 0x0100000000000007 [] AtBody []) =
     Some (sample_state 3 0x0200000000000007 [2] AtSelect []) \<and>
   m_opr (sample_state 3 0x0200000000000007 [2] AtSelect []) \<noteq>
     m_opr (sample_state 2 0x0100000000000007 [] AtBody []) \<and>
   ComputeDifficulty sample_hash (m_opr (sample_state 2 0x0100000000000007 [] AtBody [])) (mine_nonce 2) =
     Inr 0x0200000000000007 \<and>
   Difficulty (m_opr (sample_state 2 0x0100000000000007 [] AtBody [])) < 0x0200000000000007"
proof -
  have ne: "m_opr (sample_state 3 0x0200000000000007 [2] AtSelect []) \<noteq>
            m_opr (sample_state 2 0x0100000000000007 [] AtBody [])"
    by (simp add: sample_state_def sample_opr_def NewOraclePriceRecord_def)
  have cd: "ComputeDifficulty sample_hash (m_opr (sample_state 2 0x0100000000000007 [] AtBody [])) (mine_nonce 2) =
     Inr 0x0200000000000007"
    by (simp add: sample_defs)
  have lt: "Difficulty (m_opr (sample_state 2 0x0100000000000007 [] AtBody [])) < 0x0200000000000007"
    by (simp add: sample_state_def)
  show ?thesis
    using Mine_difficulty_monotone [of sample_hash "[Select, Body, Select, Body, Select, Body]"
        "Mine_start sample_opr []" "sample_state 3 0x0200000000000007 [2] AtSelect []"
        Body "sample_state 2 0x0100000000000007 [] AtBody []"
        "sample_state 3 0x0200000000000007 [2] AtSelect []"]
      sample_run_6 sample_body_2 [of "[]"] ne cd lt
    by (simp only: simp_thms)
qed

theorem cancel_bounds_iterations_witness:
  "run sample_hash ([Select, Body, Select, Body, Select] @ Send 1 # [Body, Select]) (Mine_start sample_opr []) =
     Some ((sample_state 3 0x0200000000000007 [2] Returned [])\<lparr>m_stats := Some (3, 0x0200000000000007)\<rparr>) \<and>
   run sample_hash ([Select, Body, Select, Body, Select] @ [Send 1]) (Mine_start sample_opr []) =
     Some (sample_state 2 0x0100000000000007 [] AtBody [1]) \<and>
   length (filter (\<lambda>a. a = Body) [Body, Select]) \<le> 1 \<and>
   m_pc ((sample_state 3 0x0200000000000007 [2] Returned [])\<lparr>m_stats := Some (3, 0x0200000000000007)\<rparr>) = Returned"
proof -
  have r: "run sample_hash ([Select, Body, Select, Body, Select] @ Send 1 # [Body, Select]) (Mine_start sample_opr []) =
     Some ((sample_state 3 0x0200000000000007 [2] Returned [])\<lparr>m_stats := Some (3, 0x0200000000000007)\<rparr>)"
    by (simp add: sample_start sample_select sample_body_0 sample_body_1 sample_body_2
        sample_send sample_return del: step.simps)
  have p: "run sample_hash ([Select, Body, Select, Body, Select] @ [Send 1]) (Mine_start sample_opr []) =
     Some (sample_state 2 0x0100000000000007 [] AtBody [1])"
    by (simp add: sample_start sample_select sample_body_0 sample_body_1 sample_send del: step.simps)
  have pc: "m_pc ((sample_state 3 0x0200000000000007 [2] Returned [])\<lparr>m_stats := Some (3, 0x0200000000000007)\<rparr>) = Returned"
    by (simp add: sample_state_def)
  from cancel_bounds_iterations [OF r]
  have "length (filter (\<lambda>a. a = Body) [Body, Select]) \<le> 1"
    by blast
  then show ?thesis
    using r p pc by (simp only: simp_thms)
qed

theorem Mine_frame_witness:
  "run sample_hash [Select, Body, Select, Body, Select, Body] (Mine_start sample_opr []) =
     Some (sample_state 3 0x0200000000000007 [2] AtSelect []) \<and>
   GetOPRecord sample_hash (\<lambda>body. Some [7, 1]) (\<lambda>s. []) [(''USD'', 1)]
     (NewOraclePriceRecord\<lparr>Difficulty := 0x0100000000000007\<rparr>) None = Inr (m_opr (Mine_start sample_opr [])) \<and>
   OPRHash (m_opr (sample_state 3 0x0200000000000007 [2] AtSelect [])) = sample_hash [7, 1] \<and>
   all_but_best (m_opr (sample_state 3 0x0200000000000007 [2] AtSelect [])) = all_but_best sample_opr"
proof -
  have g: "GetOPRecord sample_hash (\<lambda>body. Some [7, 1]) (\<lambda>s. []) [(''USD'', 1)]
     (NewOraclePriceRecord\<lparr>Difficulty := 0x0100000000000007\<rparr>) None = Inr (m_opr (Mine_start sample_opr []))"
    by (simp add: sample_GetOPRecord Mine_start_def)
  from Mine_frame [OF sample_run_6]
  have f: "all_but_best (m_opr (sample_state 3 0x0200000000000007 [2] AtSelect [])) =
           all_but_best (m_opr (Mine_start sample_opr []))"
    and h: "\<forall>marshal decode58 Peg r c.
            GetOPRecord sample_hash marshal decode58 Peg r c = Inr (m_opr (Mine_start sample_opr [])) \<longrightarrow>
            (\<exists>content. marshal (json_fields (m_opr (sample_state 3 0x0200000000000007 [2] AtSelect []))) = Some content \<and>
                       OPRHash (m_opr (sample_state 3 0x0200000000000007 [2] AtSelect [])) = sample_hash content)"
    by blast+
  from h g have "OPRHash (m_opr (sample_state 3 0x0200000000000007 [2] AtSelect [])) = sample_hash [7, 1]"
    by fastforce
  moreover have "m_opr (Mine_start sample_opr []) = sample_opr"
    by (simp add: Mine_start_def)
  ultimately show ?thesis
    using sample_run_6 g f by (simp only: simp_thms)
qed

section \<open>Properties of Validate\<close>

lemma no_zero_assets_iff:
  "no_zero_assets m \<longleftrightarrow> (\<forall>(k, v) \<in> set m. v = 0 \<longrightarrow> k = ''PNT'')"
  by (induction m rule: no_zero_assets.induct) auto

lemma Contains_iff: "Contains m names \<longleftrightarrow> set names \<subseteq> fst ` set m"
  by (auto simp: Contains_def list_all_iff)

lemma Validate_unresolved:
  "c ''Miner.Protocol'' = None \<or> c ''Miner.Network'' = None \<Longrightarrow> Validate X g opr c = (False, g)"
  by (auto simp: Validate_def split: option.splits)

lemma Validate_resolved:
  assumes "c ''Miner.Protocol'' = Some protocol" and "c ''Miner.Network'' = Some network"
  shows "Validate X g opr c =
           (OPRChainID opr = (if g = [] then ChainIDFromStrings X [protocol, network, OPRChainTag X] else g) \<and>
            (\<exists>raw. ConvertPegAddrToRaw X (CoinbasePNTAddress opr) = (''tPNT'', raw, None)) \<and>
            no_zero_assets (Assets opr) \<and> Contains (Assets opr) (AllAssets X),
            if g = [] then ChainIDFromStrings X [protocol, network, OPRChainTag X] else g)"
proof -
  obtain pre raw err where conv: "ConvertPegAddrToRaw X (CoinbasePNTAddress opr) = (pre, raw, err)"
    by (cases "ConvertPegAddrToRaw X (CoinbasePNTAddress opr)") auto
  show ?thesis
    using assms by (simp add: Validate_def Let_def conv)
qed

text \<open>
  Claim C1, amended. When one of the two configuration keys does not resolve,
  \<open>Validate\<close> returns false and leaves the package variable \<open>OPRChainID\<close> as it is.
  When both resolve, the variable holds afterwards the chain id in force (the id derived
  from this configuration when the variable was empty, the value it already held
  otherwise), whatever the verdict, and the verdict is true exactly when the record's
  chain id equals the chain id in force, the payout address decodes without error to the
  prefix \<open>tPNT\<close>, no asset other than \<open>PNT\<close> has the value zero, and every
  required asset is a key of the assets.
\<close>

theorem Validate_rules:
  "(c ''Miner.Protocol'' = None \<or> c ''Miner.Network'' = None \<longrightarrow> Validate X g opr c = (False, g)) \<and>
   (c ''Miner.Protocol'' = Some protocol \<and> c ''Miner.Network'' = Some network \<longrightarrow>
      snd (Validate X g opr c) =
        (if g = [] then ChainIDFromStrings X [protocol, network, OPRChainTag X] else g) \<and>
      (fst (Validate X g opr c) \<longleftrightarrow>
         OPRChainID opr = (if g = [] then ChainIDFromStrings X [protocol, network, OPRChainTag X] else g) \<and>
         (\<exists>raw. ConvertPegAddrToRaw X (CoinbasePNTAddress opr) = (''tPNT'', raw, None)) \<and>
         (\<forall>(k, v) \<in> set (Assets opr). v = 0 \<longrightarrow> k = ''PNT'') \<and>
         set (AllAssets X) \<subseteq> fst ` set (Assets opr)))"
proof (intro conjI impI)
  assume "c ''Miner.Protocol'' = None \<or> c ''Miner.Network'' = None"
  then show "Validate X g opr c = (False, g)"
    by (rule Validate_unresolved)
next
  assume a: "c ''Miner.Protocol'' = Some protocol \<and> c ''Miner.Network'' = Some network"
  then show "snd (Validate X g opr c) =
        (if g = [] then ChainIDFromStrings X [protocol, network, OPRChainTag X] else g)"
    by (simp add: Validate_resolved)
next
  assume a: "c ''Miner.Protocol'' = Some protocol \<and> c ''Miner.Network'' = Some network"
  then show "fst (Validate X g opr c) \<longleftrightarrow>
         OPRChainID opr = (if g = [] then ChainIDFromStrings X [protocol, network, OPRChainTag X] else g) \<and>
         (\<exists>raw. ConvertPegAddrToRaw X (CoinbasePNTAddress opr) = (''tPNT'', raw, None)) \<and>
         (\<forall>(k, v) \<in> set (Assets opr). v = 0 \<longrightarrow> k = ''PNT'') \<and>
         set (AllAssets X) \<subseteq> fst ` set (Assets opr)"
    by (simp add: Validate_resolved no_zero_assets_iff Contains_iff)
qed

text \<open>
  Claim C6, amended. \<open>Validate\<close> returns false whenever the record's chain id differs
  from the chain id in force: the one derived from this configuration when the package
  variable is empty, and otherwise the value cached in it by an earlier call.
\<close>

theorem Validate_chain_mismatch:
  assumes "c ''Miner.Protocol'' = Some protocol" and "c ''Miner.Network'' = Some network"
    and "OPRChainID opr \<noteq> (if g = [] then ChainIDFromStrings X [protocol, network, OPRChainTag X] else g)"
  shows "Validate X g opr c =
           (False, if g = [] then ChainIDFromStrings X [protocol, network, OPRChainTag X] else g)"
  using assms by (simp add: Validate_resolved)

lemmas validate_sample_defs = Validate_def sample_externals_def sample_config_def sample_record_def
  NewOraclePriceRecord_def Contains_def

lemma sample_cache:
  "Validate sample_externals [] (sample_record ''MainNet'') (sample_config ''MainNet'') =
   (True, ''PegNetMainNetChain'')"
  by (simp add: validate_sample_defs)

text \<open>
  Claim C1 as stated fails once the package variable holds the chain id of another
  configuration: after a validation under the MainNet configuration, a record that meets
  every rule for the TestNet configuration is rejected under that configuration.
\<close>

theorem Validate_rules_counterexample:
  "Validate sample_externals [] (sample_record ''MainNet'') (sample_config ''MainNet'') =
     (True, ''PegNetMainNetChain'') \<and>
   sample_config ''TestNet'' ''Miner.Protocol'' = Some ''PegNet'' \<and>
   sample_config ''TestNet'' ''Miner.Network'' = Some ''TestNet'' \<and>
   OPRChainID (sample_record ''TestNet'') =
     ChainIDFromStrings sample_externals [''PegNet'', ''TestNet'', OPRChainTag sample_externals] \<and>
   ConvertPegAddrToRaw sample_externals (CoinbasePNTAddress (sample_record ''TestNet'')) = (''tPNT'', [], None) \<and>
   no_zero_assets (Assets (sample_record ''TestNet'')) \<and>
   Contains (Assets (sample_record ''TestNet'')) (AllAssets sample_externals) \<and>
   \<not> fst (Validate sample_externals ''PegNetMainNetChain'' (sample_record ''TestNet'') (sample_config ''TestNet''))"
  by (simp add: validate_sample_defs)

text \<open>
  Claim C6 as stated fails in the same situation: after a validation under the MainNet
  configuration, a record carrying the MainNet chain id is accepted under the TestNet
  configuration, although its chain id differs from the one derived from that
  configuration.
\<close>

theorem Validate_chain_mismatch_counterexample:
  "Validate sample_externals [] (sample_record ''MainNet'') (sample_config ''MainNet'') =
     (True, ''PegNetMainNetChain'') \<and>
   OPRChainID (sample_record ''MainNet'') \<noteq>
     ChainIDFromStrings sample_externals [''PegNet'', ''TestNet'', OPRChainTag sample_externals] \<and>
   fst (Validate sample_externals ''PegNetMainNetChain'' (sample_record ''MainNet'') (sample_config ''TestNet''))"
  by (simp add: validate_sample_defs)

theorem Validate_rules_witness:
  "sample_config ''TestNet'' ''Miner.Protocol'' = Some ''PegNet'' \<and>
   sample_config ''TestNet'' ''Miner.Network'' = Some ''TestNet'' \<and>
   Validate sample_externals [] (sample_record ''TestNet'') (sample_config ''TestNet'') =
     (True, ''PegNetTestNetChain'') \<and>
   \<not> fst (Validate sample_externals [] ((sample_record ''TestNet'')\<lparr>Assets := [(''PNT'', 0), (''USD'', 0)]\<rparr>)
           (sample_config ''TestNet'')) \<and>
   sample_config ''TestNet'' ''Miner.IdentityChain'' = None \<and>
   Validate sample_externals [] (sample_record ''TestNet'') (\<lambda>key. None) = (False, [])"
proof -
  have c: "sample_config ''TestNet'' ''Miner.Protocol'' = Some ''PegNet'' \<and>
           sample_config ''TestNet'' ''Miner.Network'' = Some ''TestNet''"
    by (simp add: sample_config_def)
  have v: "Validate sample_externals [] (sample_record ''TestNet'') (sample_config ''TestNet'') =
     (True, ''PegNetTestNetChain'')"
    by (simp add: validate_sample_defs)
  have z: "\<not> (\<forall>(k, v) \<in> set (Assets ((sample_record ''TestNet'')\<lparr>Assets := [(''PNT'', 0), (''USD'', 0)]\<rparr>)).
                 v = 0 \<longrightarrow> k = ''PNT'')"
    by simp
  have n: "\<not> fst (Validate sample_externals [] ((sample_record ''TestNet'')\<lparr>Assets := [(''PNT'', 0), (''USD'', 0)]\<rparr>)
           (sample_config ''TestNet''))"
    using Validate_rules [of "sample_config ''TestNet''" sample_externals "[]"
        "(sample_record ''TestNet'')\<lparr>Assets := [(''PNT'', 0), (''USD'', 0)]\<rparr>" "''PegNet''" "''TestNet''"] c z
    by blast
  have u: "Validate sample_externals [] (sample_record ''TestNet'') (\<lambda>key. None) = (False, [])"
    using Validate_rules [of "\<lambda>key. None" sample_externals "[]" "sample_record ''TestNet''"]
    by simp
  show ?thesis
    using c v n u by (simp add: sample_config_def)
qed

theorem Validate_chain_mismatch_witness:
  "sample_config ''TestNet'' ''Miner.Protocol'' = Some ''PegNet'' \<and>
   sample_config ''TestNet'' ''Miner.Network'' = Some ''TestNet'' \<and>
   OPRChainID (sample_record ''MainNet'') \<noteq> ''PegNetTestNetChain'' \<and>
   Validate sample_externals [] (sample_record ''MainNet'') (sample_config ''TestNet'') =
     (False, ''PegNetTestNetChain'')"
proof -
  have p: "sample_config ''TestNet'' ''Miner.Protocol'' = Some ''PegNet''"
    and n: "sample_config ''TestNet'' ''Miner.Network'' = Some ''TestNet''"
    by (simp_all add: sample_config_def)
  have d: "OPRChainID (sample_record ''MainNet'') \<noteq>
           (if [] = ([] :: string) then ChainIDFromStrings sample_externals [''PegNet'', ''TestNet'', OPRChainTag sample_externals] else [])"
    by (simp add: sample_record_def sample_externals_def)
  from Validate_chain_mismatch [OF p n d]
  have "Validate sample_externals [] (sample_record ''MainNet'') (sample_config ''TestNet'') =
     (False, ''PegNetTestNetChain'')"
    by (simp add: sample_externals_def)
  moreover have "OPRChainID (sample_record ''MainNet'') \<noteq> ''PegNetTestNetChain''"
    by (simp add: sample_record_def)
  ultimately show ?thesis
    using p n by simp
qed

section \<open>Properties of the read loop\<close>

lemma listen_loop_messages:
  "\<forall>(m, e) \<in> set pre. e = None \<Longrightarrow>
   listen_loop (pre @ rest) =
     (map (OnNewMessage \<circ> fst) pre @ fst (listen_loop rest), snd (listen_loop rest))"
proof (induction pre)
  case Nil
  then show ?case by simp
next
  case (Cons p pre)
  obtain m e where p: "p = (m, e)" by (cases p)
  have e: "e = None" using Cons.prems p by simp
  have "listen_loop (pre @ rest) =
     (map (OnNewMessage \<circ> fst) pre @ fst (listen_loop rest), snd (listen_loop rest))"
    using Cons by simp
  then show ?case
    by (simp add: p e)
qed

lemma listen_loop_failure:
  "err \<noteq> None \<Longrightarrow>
   listen_loop ((m, err) # rest) = ([ConnClose, OnClientConnectionClosed err], LoopReturned)"
  by simp

text \<open>
  Claim C8, amended. When the first failing \<open>Decode\<close> comes after the messages
  \<open>pre\<close>, the loop delivers those messages in order, closes the socket, calls the
  connection-closed callback once with the error of the decoder, and returns; what the
  connection would deliver after the failure is never read. The error passed to the
  callback is never nil.
\<close>

theorem listen_decode_failure:
  assumes "\<forall>(m, e) \<in> set pre. e = None" and "err \<noteq> None"
  shows "listen (pre @ (m, err) # rest) =
           (OnNewClient # map (OnNewMessage \<circ> fst) pre @ [ConnClose, OnClientConnectionClosed err],
            LoopReturned) \<and>
         length (filter (\<lambda>ev. case ev of OnClientConnectionClosed e \<Rightarrow> True | _ \<Rightarrow> False)
                   (fst (listen (pre @ (m, err) # rest)))) = 1 \<and>
         OnClientConnectionClosed None \<notin> set (fst (listen (pre @ (m, err) # rest)))"
proof -
  have l: "listen (pre @ (m, err) # rest) =
           (OnNewClient # map (OnNewMessage \<circ> fst) pre @ [ConnClose, OnClientConnectionClosed err],
            LoopReturned)"
    using assms(2) by (simp add: listen_def listen_loop_messages [OF assms(1)])
  have f: "filter (\<lambda>ev. case ev of OnClientConnectionClosed e \<Rightarrow> True | _ \<Rightarrow> False)
             (map (OnNewMessage \<circ> fst) pre) = []"
    by (induction pre) simp_all
  have n: "OnClientConnectionClosed None \<notin> set (map (OnNewMessage \<circ> fst) pre)"
    by (induction pre) simp_all
  have e: "None \<noteq> err"
    using assms(2) by auto
  show ?thesis
    using f n e by (simp add: l)
qed

theorem listen_decode_failure_witness:
  "listen [(sample_message 1, None), (sample_message 2, None), (sample_message 0, Some (DecodeError ''bad'')),
           (sample_message 3, None)] =
     ([OnNewClient, OnNewMessage (sample_message 1), OnNewMessage (sample_message 2), ConnClose,
       OnClientConnectionClosed (Some (DecodeError ''bad''))], LoopReturned)"
proof -
  have a: "\<forall>(m, e) \<in> set [(sample_message 1, None :: go_error option), (sample_message 2, None)]. e = None"
    by simp
  have b: "Some (DecodeError ''bad'') \<noteq> None"
    by simp
  from listen_decode_failure [OF a b, of "sample_message 0" "[(sample_message 3, None)]"]
  show ?thesis
    by simp
qed

text \<open>
  Claim C8 as stated has a nil error signal a clean close. When the peer closes the
  connection, \<open>Decode\<close> returns \<open>io.EOF\<close>, and that error, not nil, is what the
  callback receives.
\<close>

theorem listen_clean_close_counterexample:
  "fst (listen [(sample_message 0, Some EOF)]) = [OnNewClient, ConnClose, OnClientConnectionClosed (Some EOF)] \<and>
   OnClientConnectionClosed None \<notin> set (fst (listen [(sample_message 0, Some EOF)]))"
  by (simp add: listen_def)

section \<open>Properties of the winners loop\<close>

lemma winners_loop_fits:
  assumes "\<forall>w \<in> set ws. \<exists>e. Entry w = Some e \<and> 8 \<le> length (EntryHash e)"
    and "length (WinPreviousOPR opr) = 10" and "i + length ws \<le> 10"
  shows "\<exists>opr'. winners_loop EntryHash i ws opr = Inr opr' \<and>
           length (WinPreviousOPR opr') = 10 \<and>
           (\<forall>k < length ws. WinPreviousOPR opr' ! (i + k) =
                EncodeToString (take 8 (EntryHash (the (Entry (ws ! k)))))) \<and>
           (\<forall>k < 10. k < i \<or> i + length ws \<le> k \<longrightarrow> WinPreviousOPR opr' ! k = WinPreviousOPR opr ! k) \<and>
           opr'\<lparr>WinPreviousOPR := WinPreviousOPR opr\<rparr> = opr"
  using assms
proof (induction ws arbitrary: i opr)
  case Nil
  then show ?case by simp
next
  case (Cons w ws)
  obtain e where e: "Entry w = Some e" "8 \<le> length (EntryHash e)"
    using Cons.prems(1) by auto
  define h where "h = EncodeToString (take 8 (EntryHash e))"
  define opr1 where "opr1 = opr\<lparr>WinPreviousOPR := (WinPreviousOPR opr)[i := h]\<rparr>"
  have i: "i < 10"
    using Cons.prems(3) by simp
  have unfold: "winners_loop EntryHash i (w # ws) opr = winners_loop EntryHash (Suc i) ws opr1"
    using e i by (simp add: opr1_def h_def)
  have len1: "length (WinPreviousOPR opr1) = 10"
    using Cons.prems(2) by (simp add: opr1_def)
  have "\<forall>w \<in> set ws. \<exists>e. Entry w = Some e \<and> 8 \<le> length (EntryHash e)"
    using Cons.prems(1) by simp
  moreover have "Suc i + length ws \<le> 10"
    using Cons.prems(3) by simp
  ultimately obtain opr' where r: "winners_loop EntryHash (Suc i) ws opr1 = Inr opr'"
    and len: "length (WinPreviousOPR opr') = 10"
    and new: "\<forall>k < length ws. WinPreviousOPR opr' ! (Suc i + k) =
                EncodeToString (take 8 (EntryHash (the (Entry (ws ! k)))))"
    and old: "\<forall>k < 10. k < Suc i \<or> Suc i + length ws \<le> k \<longrightarrow>
                WinPreviousOPR opr' ! k = WinPreviousOPR opr1 ! k"
    and rest: "opr'\<lparr>WinPreviousOPR := WinPreviousOPR opr1\<rparr> = opr1"
    using Cons.IH [of opr1 "Suc i"] len1 by blast
  have at_i: "WinPreviousOPR opr' ! i = h"
    using old i Cons.prems(2) by (simp add: opr1_def)
  have new': "WinPreviousOPR opr' ! (i + k) =
                EncodeToString (take 8 (EntryHash (the (Entry ((w # ws) ! k)))))"
    if "k < length (w # ws)" for k
  proof (cases k)
    case 0
    then show ?thesis using at_i e by (simp add: h_def)
  next
    case (Suc j)
    then show ?thesis using new that by simp
  qed
  have old': "WinPreviousOPR opr' ! k = WinPreviousOPR opr ! k"
    if "k < 10" "k < i \<or> i + length (w # ws) \<le> k" for k
  proof -
    have "WinPreviousOPR opr' ! k = WinPreviousOPR opr1 ! k"
      using old that by auto
    also have "\<dots> = WinPreviousOPR opr ! k"
      using that by (auto simp: opr1_def)
    finally show ?thesis .
  qed
  have "(opr'\<lparr>WinPreviousOPR := WinPreviousOPR opr1\<rparr>)\<lparr>WinPreviousOPR := WinPreviousOPR opr\<rparr> =
        opr1\<lparr>WinPreviousOPR := WinPreviousOPR opr\<rparr>"
    by (simp only: rest)
  then have rest': "opr'\<lparr>WinPreviousOPR := WinPreviousOPR opr\<rparr> = opr"
    by (simp add: opr1_def)
  show ?case
    using r len new' old' rest' by (simp only: unfold) blast
qed

lemma winners_loop_overflow:
  assumes "\<forall>w \<in> set ws. \<exists>e. Entry w = Some e \<and> 8 \<le> length (EntryHash e)"
    and "i \<le> 10" and "10 < i + length ws"
  shows "winners_loop EntryHash i ws opr = Inl IndexOutOfRange"
  using assms
proof (induction ws arbitrary: i opr)
  case Nil
  then show ?case by simp
next
  case (Cons w ws)
  obtain e where e: "Entry w = Some e" "8 \<le> length (EntryHash e)"
    using Cons.prems(1) by auto
  show ?case
  proof (cases "i < 10")
    case True
    have "winners_loop EntryHash (Suc i) ws
            (opr\<lparr>WinPreviousOPR := (WinPreviousOPR opr)[i := EncodeToString (take 8 (EntryHash e))]\<rparr>) =
          Inl IndexOutOfRange"
      using Cons.prems True by (intro Cons.IH) simp_all
    then show ?thesis
      using e True by simp
  next
    case False
    then show ?thesis
      using e by simp
  qed
qed

text \<open>
  Claim C10. For winners whose entries are present and hash to at least eight bytes, and
  an array of ten, the loop of \<open>NewOpr\<close> runs out of the array exactly when there are
  more than ten winners. With at most ten, it returns, entry \<open>k\<close> holds the hexadecimal
  encoding of the first eight bytes of the entry hash of winner \<open>k\<close>, the entries
  beyond the winners keep what they held, and no other field changes.
\<close>

theorem NewOpr_winners_bounds:
  assumes "\<forall>w \<in> set ws. \<exists>e. Entry w = Some e \<and> 8 \<le> length (EntryHash e)"
    and "length (WinPreviousOPR opr) = 10"
  shows "(NewOpr_winners EntryHash opr ws = Inl IndexOutOfRange \<longleftrightarrow> 10 < length ws) \<and>
         (length ws \<le> 10 \<longrightarrow>
            (\<exists>opr'. NewOpr_winners EntryHash opr ws = Inr opr' \<and>
               length (WinPreviousOPR opr') = 10 \<and>
               (\<forall>k < length ws. WinPreviousOPR opr' ! k =
                    EncodeToString (take 8 (EntryHash (the (Entry (ws ! k)))))) \<and>
               (\<forall>k < 10. length ws \<le> k \<longrightarrow> WinPreviousOPR opr' ! k = WinPreviousOPR opr ! k) \<and>
               opr'\<lparr>WinPreviousOPR := WinPreviousOPR opr\<rparr> = opr))"
proof (cases "length ws \<le> 10")
  case True
  then have "0 + length ws \<le> 10" by simp
  from winners_loop_fits [OF assms this]
  obtain opr' where r: "winners_loop EntryHash 0 ws opr = Inr opr'"
    and len: "length (WinPreviousOPR opr') = 10"
    and new: "\<forall>k < length ws. WinPreviousOPR opr' ! (0 + k) =
                EncodeToString (take 8 (EntryHash (the (Entry (ws ! k)))))"
    and old: "\<forall>k < 10. k < 0 \<or> 0 + length ws \<le> k \<longrightarrow> WinPreviousOPR opr' ! k = WinPreviousOPR opr ! k"
    and rest: "opr'\<lparr>WinPreviousOPR := WinPreviousOPR opr\<rparr> = opr"
    by blast
  show ?thesis
    using True r len new old rest by (simp add: NewOpr_winners_def)
next
  case False
  then have big: "10 < 0 + length ws" by simp
  have z: "(0::nat) \<le> 10" by simp
  have "winners_loop EntryHash 0 ws opr = Inl IndexOutOfRange"
    using assms(1) z big by (rule winners_loop_overflow)
  then show ?thesis
    using False by (simp add: NewOpr_winners_def)
qed

lemma replicate_10: "replicate 10 x = [x, x, x, x, x, x, x, x, x, x]"
  by (simp add: numeral_eq_Suc)

lemma sample_hex: "EncodeToString [1, 0xAB, 0, 0, 0, 0, 0, 0] = ''01ab000000000000''"
  by (simp add: EncodeToString_def hex_digit_def)

theorem NewOpr_winners_bounds_witness:
  "NewOpr_winners (\<lambda>e. sample_hash (Content e)) NewOraclePriceRecord
     [sample_winner [0xAB, 1], sample_winner [2]] =
     Inr (NewOraclePriceRecord
            \<lparr>WinPreviousOPR := [''01ab000000000000'', ''0200000000000000'', [], [], [], [], [], [], [], []]\<rparr>) \<and>
   NewOpr_winners (\<lambda>e. sample_hash (Content e)) NewOraclePriceRecord
     (replicate 11 (sample_winner [2])) = Inl IndexOutOfRange"
proof -
  have h: "\<forall>w \<in> set (replicate 11 (sample_winner [2])).
             \<exists>e. Entry w = Some e \<and> 8 \<le> length ((\<lambda>e. sample_hash (Content e)) e)"
    by (simp add: sample_winner_def sample_hash_def)
  have l: "length (WinPreviousOPR NewOraclePriceRecord) = 10"
    by (simp add: NewOraclePriceRecord_def)
  have "NewOpr_winners (\<lambda>e. sample_hash (Content e)) NewOraclePriceRecord
     (replicate 11 (sample_winner [2])) = Inl IndexOutOfRange"
    using NewOpr_winners_bounds [OF h l] by simp
  moreover have "NewOpr_winners (\<lambda>e. sample_hash (Content e)) NewOraclePriceRecord
     [sample_winner [0xAB, 1], sample_winner [2]] =
     Inr (NewOraclePriceRecord
            \<lparr>WinPreviousOPR := [''01ab000000000000'', ''0200000000000000'', [], [], [], [], [], [], [], []]\<rparr>)"
    by (simp add: NewOpr_winners_def sample_winner_def sample_hash_def NewOraclePriceRecord_def
        EncodeToString_def hex_digit_def replicate_10)
  ultimately show ?thesis
    by simp
qed

end
